theory Spec2Isabelle
  imports Complex_Main "HOL-Library.Multiset" "HOL-Library.Product_Lexorder"
begin

section \<open>Python values shared by all modules\<close>

text \<open>
  Exceptions of the Python program are values. \<open>SystemExit\<close> carries the message the
  source passes to it; the other constructors are the built-in exceptions that list
  indexing, dictionary lookup and tuple unpacking raise.
\<close>

datatype error = IndexError | KeyError | TypeError | ValueError | SystemExit string

type_synonym cell = "int \<times> int"

text \<open>
  \<open>xs[i]\<close> of Python: a negative index counts from the end of the list, an index
  outside \<open>-len(xs) .. len(xs) - 1\<close> raises IndexError.
\<close>

definition py_index :: "'a list \<Rightarrow> int \<Rightarrow> error + 'a" where
  "py_index xs i =
     (if 0 \<le> i \<and> i < int (length xs) then Inr (xs ! nat i)
      else if i < 0 \<and> - int (length xs) \<le> i then Inr (xs ! nat (int (length xs) + i))
      else Inl IndexError)"

text \<open>\<open>xs[i] = v\<close> of Python, with the same index rule.\<close>

definition py_assign :: "'a list \<Rightarrow> int \<Rightarrow> 'a \<Rightarrow> error + 'a list" where
  "py_assign xs i v =
     (if 0 \<le> i \<and> i < int (length xs) then Inr (xs[nat i := v])
      else if i < 0 \<and> - int (length xs) \<le> i then Inr (xs[nat (int (length xs) + i) := v])
      else Inl IndexError)"

text \<open>\<open>m[r][c]\<close> and \<open>m[r][c] = v\<close> on a list of lists.\<close>

definition py_index2 :: "'a list list \<Rightarrow> int \<Rightarrow> int \<Rightarrow> error + 'a" where
  "py_index2 m r c = (case py_index m r of Inl e \<Rightarrow> Inl e | Inr row \<Rightarrow> py_index row c)"

definition py_assign2 :: "'a list list \<Rightarrow> int \<Rightarrow> int \<Rightarrow> 'a \<Rightarrow> error + 'a list list" where
  "py_assign2 m r c v =
     (case py_index m r of
        Inl e \<Rightarrow> Inl e
      | Inr row \<Rightarrow> (case py_assign row c v of
                     Inl e \<Rightarrow> Inl e
                   | Inr row' \<Rightarrow> py_assign m r row'))"

section \<open>GridSearch.py: the grid object\<close>

text \<open>
  The attributes of a \<open>GridSearch\<close> object. \<open>visited\<close> and \<open>added\<close> are created by the
  search methods; before the first search they do not exist in the source and are 0 here.
\<close>

record GridSearch =
  layout :: "char list list"
  bound :: "nat list list"
  start :: "cell option"
  goal :: "cell option"
  offset :: "(int \<times> int) list option"
  prob :: "real list option"
  visited :: nat
  added :: nat

definition bounds_msg :: string where
  "bounds_msg = CHR 0x0A # ''The grid bounds are not consistent.''"

definition start_msg :: string where
  "start_msg = CHR 0x0A # ''The start position is not valid.''"

definition goal_msg :: string where
  "goal_msg = CHR 0x0A # ''The goal position is not valid.''"

definition obstacle_msg :: string where
  "obstacle_msg = CHR 0x0A # ''The obstacle position is not valid.''"

definition obstacle_msg_del :: string where
  "obstacle_msg_del = CHR 0x0A # ''the obstacle position is not valid.''"

definition file_msg :: string where
  "file_msg = CHR 0x0A # ''File not found or problem during reading''"

text \<open>\<open>[i for i, x in enumerate(row) if x == "*"]\<close>\<close>

definition star_cols :: "char list \<Rightarrow> nat list" where
  "star_cols row = filter (\<lambda>j. row ! j = CHR ''*'') [0..<length row]"

text \<open>
  The loop of \<open>__init__\<close> over the rows of the layout: it appends the boundary columns of
  each row to \<open>bound\<close> and exits at the first row with at most one boundary cell.
\<close>

fun build_bound :: "char list list \<Rightarrow> nat list list \<Rightarrow> error + nat list list" where
  "build_bound [] acc = Inr acc"
| "build_bound (row # rows) acc =
     (let acc' = acc @ [star_cols row]
      in if length (star_cols row) \<le> 1 then Inl (SystemExit bounds_msg)
         else build_bound rows acc')"

text \<open>
  \<open>__init__\<close>. Reading the file is outside the model: the argument is the list of the
  file's lines with the line ends stripped, or \<open>None\<close> when opening or reading fails.
\<close>

definition GridSearch_init :: "char list list option \<Rightarrow> error + GridSearch" where
  "GridSearch_init file =
     (case file of
        None \<Rightarrow> Inl (SystemExit file_msg)
      | Some rows \<Rightarrow>
          (case build_bound rows [] of
             Inl e \<Rightarrow> Inl e
           | Inr b \<Rightarrow> Inr \<lparr>layout = rows, bound = b, start = None, goal = None,
                          offset = None, prob = None, visited = 0, added = 0\<rparr>))"

text \<open>
  The list \<open>column\<close> that \<open>is_valid\<close> builds: the indices of the rows whose boundary list
  contains \<open>col\<close>.
\<close>

definition column_of :: "nat list list \<Rightarrow> int \<Rightarrow> nat list" where
  "column_of b col = filter (\<lambda>i. col \<in> int ` set (b ! i)) [0..<length b]"

text \<open>
  \<open>is_valid\<close>. \<open>max\<close> and \<open>min\<close> of an empty list raise ValueError; the row index is
  between 1 and \<open>len(bound) - 1\<close> when \<open>bound\<close> is read.
\<close>

definition is_valid :: "GridSearch \<Rightarrow> int \<Rightarrow> int \<Rightarrow> error + bool" where
  "is_valid g row col =
     (let max_rows = int (length (bound g)) in
      if row \<ge> max_rows \<or> row \<le> 0 then Inr False
      else let brow = bound g ! nat row in
      if brow = [] then Inl ValueError
      else if col > int (Max (set brow)) \<or> col < int (Min (set brow)) then Inr False
      else let column = column_of (bound g) col in
      if length column \<le> 1 then Inl (SystemExit bounds_msg)
      else if row > int (Max (set column)) \<or> row < int (Min (set column)) then Inr False
      else (case py_index2 (layout g) row col of
              Inl e \<Rightarrow> Inl e
            | Inr ch \<Rightarrow> if ch = CHR ''*'' then Inr False else Inr True))"

text \<open>
  The methods that change the grid return the exception, if any, together with the
  object as it is when the method returns or raises.
\<close>

definition set_start :: "GridSearch \<Rightarrow> int \<Rightarrow> int \<Rightarrow> (error + unit) \<times> GridSearch" where
  "set_start g row col =
     (case is_valid g row col of
        Inl e \<Rightarrow> (Inl e, g)
      | Inr False \<Rightarrow> (Inl (SystemExit start_msg), g)
      | Inr True \<Rightarrow>
          (case (case start g of
                   None \<Rightarrow> Inr (layout g)
                 | Some (r0, c0) \<Rightarrow> py_assign2 (layout g) r0 c0 CHR '' '') of
             Inl e \<Rightarrow> (Inl e, g)
           | Inr l1 \<Rightarrow>
               (let g1 = g\<lparr>layout := l1, start := Some (row, col)\<rparr>
                in case py_assign2 l1 row col CHR ''S'' of
                     Inl e \<Rightarrow> (Inl e, g1)
                   | Inr l2 \<Rightarrow> (Inr (), g1\<lparr>layout := l2\<rparr>))))"

definition set_goal :: "GridSearch \<Rightarrow> int \<Rightarrow> int \<Rightarrow> (error + unit) \<times> GridSearch" where
  "set_goal g row col =
     (case is_valid g row col of
        Inl e \<Rightarrow> (Inl e, g)
      | Inr False \<Rightarrow> (Inl (SystemExit goal_msg), g)
      | Inr True \<Rightarrow>
          (case (case goal g of
                   None \<Rightarrow> Inr (layout g)
                 | Some (r0, c0) \<Rightarrow> py_assign2 (layout g) r0 c0 CHR '' '') of
             Inl e \<Rightarrow> (Inl e, g)
           | Inr l1 \<Rightarrow>
               (let g1 = g\<lparr>layout := l1, goal := Some (row, col)\<rparr>
                in case py_assign2 l1 row col CHR ''G'' of
                     Inl e \<Rightarrow> (Inl e, g1)
                   | Inr l2 \<Rightarrow> (Inr (), g1\<lparr>layout := l2\<rparr>))))"

definition add_obstacle :: "GridSearch \<Rightarrow> int \<Rightarrow> int \<Rightarrow> (error + unit) \<times> GridSearch" where
  "add_obstacle g row col =
     (case is_valid g row col of
        Inl e \<Rightarrow> (Inl e, g)
      | Inr False \<Rightarrow> (Inl (SystemExit obstacle_msg), g)
      | Inr True \<Rightarrow>
          (case py_assign2 (layout g) row col CHR ''#'' of
             Inl e \<Rightarrow> (Inl e, g)
           | Inr l \<Rightarrow> (Inr (), g\<lparr>layout := l\<rparr>)))"

definition del_obstacle :: "GridSearch \<Rightarrow> int \<Rightarrow> int \<Rightarrow> (error + unit) \<times> GridSearch" where
  "del_obstacle g row col =
     (case is_valid g row col of
        Inl e \<Rightarrow> (Inl e, g)
      | Inr False \<Rightarrow> (Inl (SystemExit obstacle_msg_del), g)
      | Inr True \<Rightarrow>
          (case py_assign2 (layout g) row col CHR '' '' of
             Inl e \<Rightarrow> (Inl e, g)
           | Inr l \<Rightarrow> (Inr (), g\<lparr>layout := l\<rparr>)))"

definition set_motion :: "GridSearch \<Rightarrow> (int \<times> int) list \<Rightarrow> real list option \<Rightarrow> GridSearch" where
  "set_motion g off p = g\<lparr>offset := Some off, prob := p\<rparr>"

text \<open>
  The cell \<open>(r, c)\<close> of the layout holds a boundary character: \<open>r\<close> is a row of the
  layout, \<open>c\<close> a position of that row, and the character there is \<open>*\<close>.
\<close>

definition is_star :: "char list list \<Rightarrow> nat \<Rightarrow> nat \<Rightarrow> bool" where
  "is_star l r c = (r < length l \<and> c < length (l ! r) \<and> l ! r ! c = CHR ''*'')"

text \<open>
  The column \<open>col\<close> lies between two boundary cells of row \<open>row\<close> (both ends included),
  and the row \<open>row\<close> lies between two boundary cells of column \<open>col\<close>.
\<close>

definition row_bounded :: "char list list \<Rightarrow> int \<Rightarrow> int \<Rightarrow> bool" where
  "row_bounded l row col =
     (\<exists>c1 c2. int c1 \<le> col \<and> col \<le> int c2 \<and> is_star l (nat row) c1 \<and> is_star l (nat row) c2)"

definition col_bounded :: "char list list \<Rightarrow> int \<Rightarrow> int \<Rightarrow> bool" where
  "col_bounded l row col =
     (\<exists>r1 r2. int r1 \<le> row \<and> row \<le> int r2 \<and> is_star l r1 (nat col) \<and> is_star l r2 (nat col))"

text \<open>
  The grid objects a program can hold: the result of a successful \<open>__init__\<close>, changed by
  any number of calls of the methods that place the start, the goal and obstacles or set
  the motion, and by the counters a search writes.
\<close>

inductive loaded :: "GridSearch \<Rightarrow> bool" where
  loaded_init: "GridSearch_init (Some rows) = Inr g \<Longrightarrow> loaded g"
| loaded_set_start: "loaded g \<Longrightarrow> loaded (snd (set_start g row col))"
| loaded_set_goal: "loaded g \<Longrightarrow> loaded (snd (set_goal g row col))"
| loaded_add_obstacle: "loaded g \<Longrightarrow> loaded (snd (add_obstacle g row col))"
| loaded_del_obstacle: "loaded g \<Longrightarrow> loaded (snd (del_obstacle g row col))"
| loaded_set_motion: "loaded g \<Longrightarrow> loaded (set_motion g off p)"
| loaded_counters: "loaded g \<Longrightarrow> loaded (g\<lparr>visited := v, added := a\<rparr>)"

text \<open>
  What \<open>__init__\<close> establishes and the methods keep: \<open>bound\<close> lists the boundary columns of
  every row of the layout, every row has at least two of them, and the start and the goal,
  when set, are cells of the layout that hold no boundary character.
\<close>

definition free_cell :: "char list list \<Rightarrow> cell \<Rightarrow> bool" where
  "free_cell l rc = (0 \<le> fst rc \<and> nat (fst rc) < length l \<and> 0 \<le> snd rc \<and>
       nat (snd rc) < length (l ! nat (fst rc)) \<and> l ! nat (fst rc) ! nat (snd rc) \<noteq> CHR ''*'')"

definition grid_inv :: "GridSearch \<Rightarrow> bool" where
  "grid_inv g = (bound g = map star_cols (layout g) \<and>
      (\<forall>row \<in> set (layout g). 2 \<le> length (star_cols row)) \<and>
      (\<forall>rc. start g = Some rc \<longrightarrow> free_cell (layout g) rc) \<and>
      (\<forall>rc. goal g = Some rc \<longrightarrow> free_cell (layout g) rc))"

text \<open>The layout with the character \<open>v\<close> written at a cell.\<close>

definition put_char :: "char list list \<Rightarrow> cell \<Rightarrow> char \<Rightarrow> char list list" where
  "put_char l rc v = l[nat (fst rc) := (l ! nat (fst rc))[nat (snd rc) := v]]"

section \<open>Stack.py and Queue.py\<close>

text \<open>
  Both classes keep a list \<open>items\<close> and a counter \<open>size\<close>. \<open>pop\<close> and \<open>dequeue\<close> return
  \<open>None\<close> when \<open>size\<close> is 0; otherwise they decrement \<open>size\<close> and remove the last or the
  first entry of the list, which raises IndexError on an empty list.
\<close>

record 'a Stack =
  items_st :: "'a list"
  size_st :: nat

definition Stack_init :: "'a list option \<Rightarrow> 'a Stack" where
  "Stack_init init_list =
     (case init_list of
        None \<Rightarrow> \<lparr>items_st = [], size_st = 0\<rparr>
      | Some l \<Rightarrow> \<lparr>items_st = l, size_st = length l\<rparr>)"

definition is_empty_st :: "'a Stack \<Rightarrow> bool" where
  "is_empty_st st = (size_st st = 0)"

definition push :: "'a Stack \<Rightarrow> 'a \<Rightarrow> 'a Stack" where
  "push st item = st\<lparr>size_st := size_st st + 1, items_st := items_st st @ [item]\<rparr>"

definition pop :: "'a Stack \<Rightarrow> error + ('a option \<times> 'a Stack)" where
  "pop st =
     (if size_st st = 0 then Inr (None, st)
      else if items_st st = [] then Inl IndexError
      else Inr (Some (last (items_st st)),
                st\<lparr>size_st := size_st st - 1, items_st := butlast (items_st st)\<rparr>))"

definition peek_st :: "'a Stack \<Rightarrow> error + 'a option" where
  "peek_st st =
     (if size_st st = 0 then Inr None
      else if items_st st = [] then Inl IndexError
      else Inr (Some (last (items_st st))))"

definition reverse_st :: "'a Stack \<Rightarrow> 'a Stack" where
  "reverse_st st = st\<lparr>items_st := rev (items_st st)\<rparr>"

definition clear_st :: "'a Stack \<Rightarrow> 'a Stack" where
  "clear_st st = st\<lparr>items_st := [], size_st := 0\<rparr>"

record 'a Queue =
  items_qu :: "'a list"
  size_qu :: nat

definition Queue_init :: "'a list option \<Rightarrow> 'a Queue" where
  "Queue_init init_list =
     (case init_list of
        None \<Rightarrow> \<lparr>items_qu = [], size_qu = 0\<rparr>
      | Some l \<Rightarrow> \<lparr>items_qu = l, size_qu = length l\<rparr>)"

definition is_empty_qu :: "'a Queue \<Rightarrow> bool" where
  "is_empty_qu qu = (size_qu qu = 0)"

definition enqueue :: "'a Queue \<Rightarrow> 'a \<Rightarrow> 'a Queue" where
  "enqueue qu item = qu\<lparr>size_qu := size_qu qu + 1, items_qu := items_qu qu @ [item]\<rparr>"

definition dequeue :: "'a Queue \<Rightarrow> error + ('a option \<times> 'a Queue)" where
  "dequeue qu =
     (if size_qu qu = 0 then Inr (None, qu)
      else if items_qu qu = [] then Inl IndexError
      else Inr (Some (hd (items_qu qu)),
                qu\<lparr>size_qu := size_qu qu - 1, items_qu := tl (items_qu qu)\<rparr>))"

definition peek_qu :: "'a Queue \<Rightarrow> error + 'a option" where
  "peek_qu qu =
     (if size_qu qu = 0 then Inr None
      else if items_qu qu = [] then Inl IndexError
      else Inr (Some (hd (items_qu qu))))"

definition reverse_qu :: "'a Queue \<Rightarrow> 'a Queue" where
  "reverse_qu qu = qu\<lparr>items_qu := rev (items_qu qu)\<rparr>"

definition clear_qu :: "'a Queue \<Rightarrow> 'a Queue" where
  "clear_qu qu = qu\<lparr>items_qu := [], size_qu := 0\<rparr>"

section \<open>PriorityQueue.py\<close>

text \<open>
  A priority is a number. The two dummy items of the queue carry \<open>-inf\<close> and \<open>inf\<close>, so
  the priorities are the integers with the two infinities added, ordered as Python orders
  them.
\<close>

datatype prio = NegInf | Num int | PosInf

fun prio_le :: "prio \<Rightarrow> prio \<Rightarrow> bool" where
  "prio_le NegInf b = True"
| "prio_le (Num a) NegInf = False"
| "prio_le (Num a) (Num b) = (a \<le> b)"
| "prio_le (Num a) PosInf = True"
| "prio_le PosInf PosInf = True"
| "prio_le PosInf b = False"

instantiation prio :: linorder
begin

definition less_eq_prio :: "prio \<Rightarrow> prio \<Rightarrow> bool" where
  "less_eq_prio a b = prio_le a b"

definition less_prio :: "prio \<Rightarrow> prio \<Rightarrow> bool" where
  "less_prio a b = (prio_le a b \<and> \<not> prio_le b a)"

instance
proof
  fix x y z :: prio
  show "(x < y) = (x \<le> y \<and> \<not> y \<le> x)"
    by (simp add: less_prio_def less_eq_prio_def)
  show "x \<le> x"
    by (cases x) (simp_all add: less_eq_prio_def)
  show "x \<le> y \<Longrightarrow> y \<le> z \<Longrightarrow> x \<le> z"
    by (cases x; cases y; cases z) (simp_all add: less_eq_prio_def)
  show "x \<le> y \<Longrightarrow> y \<le> x \<Longrightarrow> x = y"
    by (cases x; cases y) (simp_all add: less_eq_prio_def)
  show "x \<le> y \<or> y \<le> x"
    by (cases x; cases y) (auto simp: less_eq_prio_def)
qed

end

text \<open>An entry of the list \<open>items\<close>: a priority with the string \<open>dummy\<close> or with an item.\<close>

datatype 'a slot = Dummy | Item 'a

type_synonym 'a entry = "prio \<times> 'a slot"

text \<open>
  The attributes of a \<open>PriorityQueue\<close>. The type of the queue is the string the source
  compares with \<open>max\<close>; every other string makes a min queue.
\<close>

record 'a PriorityQueue =
  queue_type :: string
  items_pq :: "'a entry list"
  size_pq :: nat

text \<open>
  The order the source tests in \<open>put\<close>: \<open>priority >= p\<close> in a min queue and
  \<open>priority <= p\<close> in a max queue, where \<open>p\<close> is the priority of the middle entry.
\<close>

definition move_left :: "string \<Rightarrow> prio \<Rightarrow> prio \<Rightarrow> bool" where
  "move_left qt priority p = (if qt = ''max'' then priority \<le> p else priority \<ge> p)"

text \<open>
  The binary search of \<open>put\<close>: the loop \<open>while (right > (left + 1))\<close>, returning the
  final \<open>right\<close>. Reading \<open>items[middle]\<close> past the end of the list raises IndexError.
\<close>

function put_search :: "string \<Rightarrow> 'a entry list \<Rightarrow> prio \<Rightarrow> nat \<Rightarrow> nat \<Rightarrow> error + nat" where
  "put_search qt its priority left right =
     (if right > left + 1 then
        (let middle = (left + right) div 2 in
         if middle < length its then
           (if move_left qt priority (fst (its ! middle))
            then put_search qt its priority middle right
            else put_search qt its priority left middle)
         else Inl IndexError)
      else Inr right)"
  by pat_completeness auto
termination
  by (relation "measure (\<lambda>(qt, its, priority, left, right). right - left)") auto

text \<open>\<open>xs.insert(i, x)\<close> for a non-negative \<open>i\<close>: past the end it appends.\<close>

definition list_insert :: "'a list \<Rightarrow> nat \<Rightarrow> 'a \<Rightarrow> 'a list" where
  "list_insert xs i x = take i xs @ x # drop i xs"

text \<open>
  \<open>put\<close>. An exception can only come from the search, before the object is changed, so
  the result is the exception or the changed queue.
\<close>

definition put_pq :: "'a PriorityQueue \<Rightarrow> prio \<Rightarrow> 'a \<Rightarrow> error + 'a PriorityQueue" where
  "put_pq q priority item =
     (case put_search (queue_type q) (items_pq q) priority 0 (size_pq q + 1) of
        Inl e \<Rightarrow> Inl e
      | Inr right \<Rightarrow>
          Inr (q\<lparr>items_pq := list_insert (items_pq q) right (priority, Item item),
                 size_pq := size_pq q + 1\<rparr>))"

text \<open>
  \<open>get\<close> returns the exception or the returned value (\<open>None\<close> on an empty queue) and
  the queue as it is afterwards: \<open>size\<close> is decremented before \<open>items.pop(1)\<close>, which
  raises IndexError on a list with fewer than two entries.
\<close>

definition get_pq :: "'a PriorityQueue \<Rightarrow> (error + 'a entry option) \<times> 'a PriorityQueue" where
  "get_pq q =
     (if size_pq q = 0 then (Inr None, q)
      else (let q1 = q\<lparr>size_pq := size_pq q - 1\<rparr> in
            if 1 < length (items_pq q)
            then (Inr (Some (items_pq q ! 1)),
                  q1\<lparr>items_pq := take 1 (items_pq q) @ drop 2 (items_pq q)\<rparr>)
            else (Inl IndexError, q1)))"

definition peek_pq :: "'a PriorityQueue \<Rightarrow> error + 'a entry option" where
  "peek_pq q =
     (if size_pq q = 0 then Inr None
      else if 1 < length (items_pq q) then Inr (Some (items_pq q ! 1))
      else Inl IndexError)"

definition is_empty_pq :: "'a PriorityQueue \<Rightarrow> bool" where
  "is_empty_pq q = (size_pq q = 0)"

definition dummies :: "string \<Rightarrow> 'a entry list" where
  "dummies qt = (if qt = ''max'' then rev [(NegInf, Dummy), (PosInf, Dummy)]
                 else [(NegInf, Dummy), (PosInf, Dummy)])"

definition reverse_pq :: "'a PriorityQueue \<Rightarrow> 'a PriorityQueue" where
  "reverse_pq q = q\<lparr>queue_type := (if queue_type q = ''max'' then ''min'' else ''max''),
                    items_pq := rev (items_pq q)\<rparr>"

definition clear_pq :: "'a PriorityQueue \<Rightarrow> 'a PriorityQueue" where
  "clear_pq q = q\<lparr>items_pq := dummies (queue_type q), size_pq := 0\<rparr>"

text \<open>The loop of \<open>__init__\<close> that puts the pairs of the initial list one after the other.\<close>

fun put_all :: "'a PriorityQueue \<Rightarrow> (prio \<times> 'a) list \<Rightarrow> error + 'a PriorityQueue" where
  "put_all q [] = Inr q"
| "put_all q ((priority, item) # rest) =
     (case put_pq q priority item of Inl e \<Rightarrow> Inl e | Inr q' \<Rightarrow> put_all q' rest)"

definition PriorityQueue_init :: "(prio \<times> 'a) list option \<Rightarrow> string \<Rightarrow> error + 'a PriorityQueue" where
  "PriorityQueue_init init_list qt =
     (let q = \<lparr>queue_type = qt, items_pq = dummies qt, size_pq = 0\<rparr> in
      case init_list of None \<Rightarrow> Inr q | Some l \<Rightarrow> put_all q l)"

text \<open>
  A program that uses a queue: a sequence of \<open>put\<close> and \<open>get\<close> calls. \<open>run_pq\<close> runs it
  and keeps, next to the queue, the entries that were put and not yet returned by a
  \<open>get\<close>, in the order of their \<open>put\<close> calls.
\<close>

datatype 'a pq_op = Put prio 'a | Get

fun run_pq :: "'a pq_op list \<Rightarrow> 'a PriorityQueue \<Rightarrow> 'a entry list
                 \<Rightarrow> error + ('a PriorityQueue \<times> 'a entry list)" where
  "run_pq [] q h = Inr (q, h)"
| "run_pq (Put p x # ops) q h =
     (case put_pq q p x of
        Inl e \<Rightarrow> Inl e
      | Inr q' \<Rightarrow> run_pq ops q' (h @ [(p, Item x)]))"
| "run_pq (Get # ops) q h =
     (case get_pq q of
        (Inl e, q') \<Rightarrow> Inl e
      | (Inr None, q') \<Rightarrow> run_pq ops q' h
      | (Inr (Some e), q') \<Rightarrow> run_pq ops q' (remove1 e h))"

text \<open>Repeated \<open>get\<close> until the queue returns \<open>None\<close>: the list of the returned entries.\<close>

function drain_pq :: "'a PriorityQueue \<Rightarrow> error + 'a entry list" where
  "drain_pq q =
     (case get_pq q of
        (Inl e, q') \<Rightarrow> Inl e
      | (Inr None, q') \<Rightarrow> Inr []
      | (Inr (Some e), q') \<Rightarrow>
          (case drain_pq q' of Inl err \<Rightarrow> Inl err | Inr es \<Rightarrow> Inr (e # es)))"
  by pat_completeness auto
termination
  by (relation "measure size_pq") (auto simp: get_pq_def Let_def split: if_splits)

text \<open>The order of a queue of type \<open>qt\<close> on priorities: ascending, or descending for \<open>max\<close>.\<close>

definition in_order :: "string \<Rightarrow> prio \<Rightarrow> prio \<Rightarrow> bool" where
  "in_order qt a b = (if qt = ''max'' then b \<le> a else a \<le> b)"

text \<open>
  The state of a queue whose real entries, from the front to the back, are \<open>cs\<close>: the list
  \<open>items\<close> is \<open>cs\<close> between the two dummy entries, \<open>size\<close> is the number of real entries,
  and their priorities are in the order of the queue. \<open>fifo cs h\<close>: the entries of each
  priority appear in \<open>cs\<close> in the order they have in \<open>h\<close>.
\<close>

definition pq_inv :: "'a PriorityQueue \<Rightarrow> 'a entry list \<Rightarrow> bool" where
  "pq_inv q cs = ((\<exists>lo hi. items_pq q = lo # cs @ [hi]) \<and> size_pq q = length cs \<and>
      sorted_wrt (in_order (queue_type q)) (map fst cs))"

definition fifo :: "'a entry list \<Rightarrow> 'a entry list \<Rightarrow> bool" where
  "fifo cs h = (\<forall>p. filter (\<lambda>e. fst e = p) cs = filter (\<lambda>e. fst e = p) h)"

text \<open>The entries of the initial list given to \<open>__init__\<close>, in their order.\<close>

definition init_entries :: "(prio \<times> 'a) list option \<Rightarrow> 'a entry list" where
  "init_entries il = (case il of None \<Rightarrow> [] | Some l \<Rightarrow> map (\<lambda>(p, x). (p, Item x)) l)"

section \<open>BinaryHeap.py\<close>

text \<open>
  The attributes of a \<open>BinaryHeap\<close>. The type of the heap is the string the source compares
  with \<open>max\<close>; every other string makes a min heap. The list \<open>items\<close> holds a placeholder at
  index 0 (the source stores the integer 0 there) and the root of the heap at index 1. The
  items are of one type with a total order.
\<close>

record 'a BinaryHeap =
  heap_type :: string
  items_bh :: "'a list"
  size_bh :: nat

text \<open>
  \<open>find_min_max\<close>: the index of the child of \<open>idx\<close> that holds the larger (max heap) or the
  smaller (min heap) item. When it reads the two children, \<open>right\<close> is at most
  \<open>len(items) - 1\<close>, so both reads are inside the list.
\<close>

definition find_min_max :: "'a::linorder list \<Rightarrow> nat \<Rightarrow> string \<Rightarrow> nat" where
  "find_min_max its idx ht =
     (let left = 2 * idx; right = 2 * idx + 1 in
      if int right > int (length its) - 1 then left
      else let flag = (if ht = ''max'' then its ! left > its ! right
                       else its ! left < its ! right)
           in if flag then left else right)"

text \<open>
  \<open>swap_up\<close>: the loop \<open>while ((ic // 2) > 0)\<close>. It reads \<open>items[ic]\<close> and then
  \<open>items[ip]\<close> with \<open>ip < ic\<close>, so IndexError is raised exactly when \<open>ic\<close> is past the end.
\<close>

function swap_up :: "string \<Rightarrow> 'a::linorder list \<Rightarrow> nat \<Rightarrow> error + 'a list" where
  "swap_up ht its ic =
     (if ic div 2 > 0 then
        (let ip = ic div 2 in
         if ic < length its then
           (let swap = (if ht = ''max'' then its ! ic > its ! ip else its ! ic < its ! ip)
            in swap_up ht (if swap then its[ip := its ! ic, ic := its ! ip] else its) ip)
         else Inl IndexError)
      else Inr its)"
  by pat_completeness auto
termination
  by (relation "measure (\<lambda>(ht, its, ic). ic)") auto

text \<open>
  \<open>swap_down\<close>: the loop \<open>while ((2 * ip) <= self.size)\<close>. Called with \<open>ip = 0\<close> the source
  can run forever (the child chosen for index 0 can be index 0 again), so the result is
  \<open>None\<close> when the loop does not end, and otherwise the exception or the list.
\<close>

partial_function (option) swap_down ::
    "string \<Rightarrow> 'a::linorder list \<Rightarrow> nat \<Rightarrow> nat \<Rightarrow> (error + 'a list) option" where
  "swap_down ht its sz ip =
     (if 2 * ip \<le> sz then
        (let ic = find_min_max its ip ht in
         if ip < length its \<and> ic < length its then
           (let swap = (if ht = ''max'' then its ! ip < its ! ic else its ! ip > its ! ic)
            in swap_down ht (if swap then its[ip := its ! ic, ic := its ! ip] else its) sz ic)
         else Some (Inl IndexError))
      else Some (Inr its))"

text \<open>
  The loop \<open>idx = self.size // 2; while (idx > 0): self.swap_down(idx); idx -= 1\<close> of
  \<open>__init__\<close> and \<open>reverse\<close>.
\<close>

function sift_all :: "string \<Rightarrow> 'a::linorder list \<Rightarrow> nat \<Rightarrow> nat \<Rightarrow> (error + 'a list) option" where
  "sift_all ht its sz idx =
     (if idx > 0 then
        (case swap_down ht its sz idx of
           None \<Rightarrow> None
         | Some (Inl e) \<Rightarrow> Some (Inl e)
         | Some (Inr its') \<Rightarrow> sift_all ht its' sz (idx - 1))
      else Some (Inr its))"
  by pat_completeness auto
termination
  by (relation "measure (\<lambda>(ht, its, sz, idx). idx)") auto

text \<open>
  \<open>__init__\<close>; \<open>pad\<close> is the placeholder of index 0. The methods return \<open>None\<close> when a loop
  does not end, the exception when one is raised, and otherwise the returned value with the
  heap after the call.
\<close>

definition BinaryHeap_init ::
    "'a \<Rightarrow> 'a::linorder list option \<Rightarrow> string \<Rightarrow> (error + 'a BinaryHeap) option" where
  "BinaryHeap_init pad init_list ht =
     (case init_list of
        None \<Rightarrow> Some (Inr \<lparr>heap_type = ht, items_bh = [pad], size_bh = 0\<rparr>)
      | Some l \<Rightarrow>
          (case sift_all ht (pad # l) (length l) (length l div 2) of
             None \<Rightarrow> None
           | Some (Inl e) \<Rightarrow> Some (Inl e)
           | Some (Inr its) \<Rightarrow> Some (Inr \<lparr>heap_type = ht, items_bh = its, size_bh = length l\<rparr>)))"

definition is_empty_bh :: "'a BinaryHeap \<Rightarrow> bool" where
  "is_empty_bh h = (size_bh h = 0)"

definition put_bh :: "'a::linorder BinaryHeap \<Rightarrow> 'a \<Rightarrow> error + 'a BinaryHeap" where
  "put_bh h item =
     (case swap_up (heap_type h) (items_bh h @ [item]) (size_bh h + 1) of
        Inl e \<Rightarrow> Inl e
      | Inr its \<Rightarrow> Inr (h\<lparr>items_bh := its, size_bh := size_bh h + 1\<rparr>))"

text \<open>
  \<open>get\<close>: \<open>items[1]\<close> raises IndexError on a list with fewer than two entries; then
  \<open>items[1] = items[-1]\<close>, \<open>items.pop()\<close>, and the new root is swapped down.
\<close>

definition get_bh :: "'a::linorder BinaryHeap \<Rightarrow> (error + ('a option \<times> 'a BinaryHeap)) option" where
  "get_bh h =
     (if size_bh h = 0 then Some (Inr (None, h))
      else if 1 < length (items_bh h) then
        (let root_item = items_bh h ! 1;
             its = butlast ((items_bh h)[1 := last (items_bh h)]);
             sz = size_bh h - 1
         in case swap_down (heap_type h) its sz 1 of
              None \<Rightarrow> None
            | Some (Inl e) \<Rightarrow> Some (Inl e)
            | Some (Inr its') \<Rightarrow>
                Some (Inr (Some root_item, h\<lparr>items_bh := its', size_bh := sz\<rparr>)))
      else Some (Inl IndexError))"

definition peek_bh :: "'a BinaryHeap \<Rightarrow> error + 'a option" where
  "peek_bh h =
     (if size_bh h = 0 then Inr None
      else if 1 < length (items_bh h) then Inr (Some (items_bh h ! 1))
      else Inl IndexError)"

definition reverse_bh :: "'a::linorder BinaryHeap \<Rightarrow> (error + 'a BinaryHeap) option" where
  "reverse_bh h =
     (let ht = (if heap_type h = ''max'' then ''min'' else ''max'') in
      case sift_all ht (items_bh h) (size_bh h) (size_bh h div 2) of
        None \<Rightarrow> None
      | Some (Inl e) \<Rightarrow> Some (Inl e)
      | Some (Inr its) \<Rightarrow> Some (Inr (h\<lparr>heap_type := ht, items_bh := its\<rparr>)))"

definition clear_bh :: "'a \<Rightarrow> 'a BinaryHeap \<Rightarrow> 'a BinaryHeap" where
  "clear_bh pad h = h\<lparr>items_bh := [pad], size_bh := 0\<rparr>"

text \<open>
  A program that uses a heap: a sequence of \<open>put\<close> and \<open>get\<close> calls. \<open>run_bh\<close> runs it,
  counts the items put and the items returned by a \<open>get\<close> (a \<open>get\<close> on an empty heap
  returns \<open>None\<close> and is not counted), and keeps the list \<open>held\<close> of the items that were
  put and not yet returned.
\<close>

datatype 'a bh_op = BPut 'a | BGet

record 'a bh_run =
  heap :: "'a BinaryHeap"
  n_put :: nat
  n_got :: nat
  held :: "'a list"

fun run_bh :: "'a::linorder bh_op list \<Rightarrow> 'a bh_run \<Rightarrow> (error + 'a bh_run) option" where
  "run_bh [] s = Some (Inr s)"
| "run_bh (BPut x # ops) s =
     (case put_bh (heap s) x of
        Inl e \<Rightarrow> Some (Inl e)
      | Inr h' \<Rightarrow> run_bh ops (s\<lparr>heap := h', n_put := n_put s + 1, held := held s @ [x]\<rparr>))"
| "run_bh (BGet # ops) s =
     (case get_bh (heap s) of
        None \<Rightarrow> None
      | Some (Inl e) \<Rightarrow> Some (Inl e)
      | Some (Inr (None, h')) \<Rightarrow> run_bh ops (s\<lparr>heap := h'\<rparr>)
      | Some (Inr (Some x, h')) \<Rightarrow>
          run_bh ops (s\<lparr>heap := h', n_got := n_got s + 1, held := remove1 x (held s)\<rparr>))"

text \<open>
  The start of such a program: the heap made by \<open>__init__\<close>, nothing put or returned yet,
  and the items of the initial list held.
\<close>

definition start_bh :: "'a \<Rightarrow> 'a::linorder list option \<Rightarrow> string \<Rightarrow> (error + 'a bh_run) option" where
  "start_bh pad init_list ht =
     (case BinaryHeap_init pad init_list ht of
        None \<Rightarrow> None
      | Some (Inl e) \<Rightarrow> Some (Inl e)
      | Some (Inr h) \<Rightarrow>
          Some (Inr \<lparr>heap = h, n_put = 0, n_got = 0,
                     held = (case init_list of None \<Rightarrow> [] | Some l \<Rightarrow> l)\<rparr>))"

definition is_put :: "'a bh_op \<Rightarrow> bool" where
  "is_put op = (case op of BPut x \<Rightarrow> True | BGet \<Rightarrow> False)"

text \<open>
  The order of a heap of type \<open>ht\<close>: \<open>above ht a b\<close> when the item \<open>a\<close> may be the parent of
  the item \<open>b\<close>, that is \<open>a \<le> b\<close> in a min heap and \<open>a \<ge> b\<close> in a max heap.
\<close>

definition above :: "string \<Rightarrow> 'a::linorder \<Rightarrow> 'a \<Rightarrow> bool" where
  "above ht a b = (if ht = ''max'' then b \<le> a else a \<le> b)"

text \<open>
  The heap order on the list \<open>its\<close> with \<open>n\<close> items: \<open>heap_from ht its n lo\<close> when every
  item whose parent index is at least \<open>lo\<close> is below its parent; \<open>down_inv\<close> and \<open>up_inv\<close>
  are what holds while an item at \<open>ip\<close> is swapped down and while an item at \<open>ic\<close> is swapped
  up: the order everywhere except against that item, and between its neighbours above and
  below.
\<close>

definition heap_from :: "string \<Rightarrow> 'a::linorder list \<Rightarrow> nat \<Rightarrow> nat \<Rightarrow> bool" where
  "heap_from ht its n lo = (\<forall>i. 2 \<le> i \<and> i \<le> n \<and> lo \<le> i div 2 \<longrightarrow> above ht (its ! (i div 2)) (its ! i))"

definition down_inv :: "string \<Rightarrow> 'a::linorder list \<Rightarrow> nat \<Rightarrow> nat \<Rightarrow> nat \<Rightarrow> bool" where
  "down_inv ht its n lo ip =
     ((\<forall>i. 2 \<le> i \<and> i \<le> n \<and> lo \<le> i div 2 \<and> i div 2 \<noteq> ip \<longrightarrow> above ht (its ! (i div 2)) (its ! i)) \<and>
      (\<forall>i. 2 \<le> i \<and> i \<le> n \<and> i div 2 = ip \<and> lo \<le> ip div 2 \<longrightarrow> above ht (its ! (ip div 2)) (its ! i)))"

definition up_inv :: "string \<Rightarrow> 'a::linorder list \<Rightarrow> nat \<Rightarrow> nat \<Rightarrow> bool" where
  "up_inv ht its n ic =
     ((\<forall>i. 2 \<le> i \<and> i \<le> n \<and> i \<noteq> ic \<longrightarrow> above ht (its ! (i div 2)) (its ! i)) \<and>
      (\<forall>i. 2 \<le> i \<and> i \<le> n \<and> i div 2 = ic \<and> 2 \<le> ic \<longrightarrow> above ht (its ! (ic div 2)) (its ! i)))"

text \<open>
  The state of a heap between calls: \<open>items\<close> has the placeholder and \<open>size\<close> items, in
  heap order from the root.
\<close>

definition bh_inv :: "'a::linorder BinaryHeap \<Rightarrow> bool" where
  "bh_inv h = (length (items_bh h) = size_bh h + 1 \<and>
               heap_from (heap_type h) (items_bh h) (size_bh h) 1)"

text \<open>The items of the initial list given to \<open>__init__\<close>.\<close>

definition init_items :: "'a list option \<Rightarrow> 'a list" where
  "init_items il = (case il of None \<Rightarrow> [] | Some l \<Rightarrow> l)"

section \<open>GridSearch.py: the search methods\<close>

text \<open>
  \<open>order_dir\<close>. Without probabilities the order is \<open>0, ..., n - 1\<close>. With probabilities
  it is what \<open>np.random.choice\<close> returns; the random source is the parameter \<open>rnd\<close>, which
  gives the list drawn at the \<open>k\<close>-th expansion of a search. \<open>len(self.offset)\<close> raises
  TypeError when no motion was set.
\<close>

definition order_dir :: "GridSearch \<Rightarrow> (nat \<Rightarrow> nat list) \<Rightarrow> nat \<Rightarrow> error + nat list" where
  "order_dir g rnd k =
     (case offset g of
        None \<Rightarrow> Inl TypeError
      | Some offs \<Rightarrow> Inr (case prob g of None \<Rightarrow> [0..<length offs] | Some p \<Rightarrow> rnd k))"

text \<open>
  The neighbour of \<open>current\<close> in a direction: \<open>self.offset[direction]\<close> added to the
  position.
\<close>

definition neighbour_of :: "GridSearch \<Rightarrow> cell \<Rightarrow> nat \<Rightarrow> error + cell" where
  "neighbour_of g current direction =
     (case offset g of
        None \<Rightarrow> Inl TypeError
      | Some offs \<Rightarrow>
          if direction < length offs
          then Inr (fst current + fst (offs ! direction), snd current + snd (offs ! direction))
          else Inl IndexError)"

text \<open>
  What the body of the loop over the directions raises when \<open>current\<close> is not a position
  (it is \<open>None\<close> or the dummy string): nothing when there is no direction, and otherwise
  the exception of the first direction, where \<open>current[0] + row_offset\<close> raises TypeError.
\<close>

definition non_cell_error :: "GridSearch \<Rightarrow> nat list \<Rightarrow> error option" where
  "non_cell_error g idx =
     (case idx of
        [] \<Rightarrow> None
      | d # ds \<Rightarrow> (case offset g of
                    None \<Rightarrow> Some TypeError
                  | Some offs \<Rightarrow> if d < length offs then Some TypeError else Some IndexError))"

text \<open>
  The local variables of a search: the frontier (a stack, a queue, a priority queue or a
  binary heap), the dictionaries \<open>previous\<close> and \<open>g_values\<close> (the latter exists in \<open>A_star\<close>
  and \<open>Dijkstra\<close> only and stays empty otherwise), and the two counters the search keeps in
  \<open>self.visited\<close> and \<open>self.added\<close>. The field \<open>trace\<close> is not a variable of the program:
  it records, in order, every position at which the layout is read, every position pushed
  into the frontier and every position popped from it.
\<close>

datatype event = Read cell | Push cell | Pop cell

record 'f search =
  frontier :: 'f
  previous :: "cell \<rightharpoonup> cell option"
  g_values :: "cell \<rightharpoonup> int"
  n_visited :: nat
  n_added :: nat
  trace :: "event list"

definition reads :: "event list \<Rightarrow> cell list" where
  "reads t = concat (map (\<lambda>e. case e of Read c \<Rightarrow> [c] | _ \<Rightarrow> []) t)"

definition pushes :: "event list \<Rightarrow> cell list" where
  "pushes t = concat (map (\<lambda>e. case e of Push c \<Rightarrow> [c] | _ \<Rightarrow> []) t)"

definition pops :: "event list \<Rightarrow> cell list" where
  "pops t = concat (map (\<lambda>e. case e of Pop c \<Rightarrow> [c] | _ \<Rightarrow> []) t)"

text \<open>
  \<open>get_path\<close>: the loop \<open>while (current is not None)\<close> follows \<open>previous\<close> from the goal.
  \<open>previous[current]\<close> raises KeyError on a missing key, and the loop does not end when
  \<open>previous\<close> has a cycle: the result is then \<open>None\<close>.
\<close>

partial_function (option) get_path_loop ::
    "(cell \<rightharpoonup> cell option) \<Rightarrow> cell option \<Rightarrow> cell list \<Rightarrow> (error + cell list) option" where
  "get_path_loop prev current path =
     (case current of
        None \<Rightarrow> Some (Inr path)
      | Some c \<Rightarrow> (case prev c of
                     None \<Rightarrow> Some (Inl KeyError)
                   | Some p \<Rightarrow> get_path_loop prev p (path @ [c])))"

definition get_path :: "GridSearch \<Rightarrow> (cell \<rightharpoonup> cell option) \<Rightarrow> (error + cell list) option" where
  "get_path g prev =
     (case get_path_loop prev (goal g) [] of
        None \<Rightarrow> None
      | Some (Inl e) \<Rightarrow> Some (Inl e)
      | Some (Inr path) \<Rightarrow> Some (Inr (rev path)))"

text \<open>
  The result of a search loop: \<open>None\<close> when a loop does not end; otherwise the exception
  raised, or the returned value (a path or \<open>None\<close>) with the local variables at the return.
\<close>

type_synonym 'f search_result = "(error + (cell list option \<times> 'f search)) option"

definition found :: "GridSearch \<Rightarrow> 'f search \<Rightarrow> 'f search_result" where
  "found g s =
     (case get_path g (previous s) of
        None \<Rightarrow> None
      | Some (Inl e) \<Rightarrow> Some (Inl e)
      | Some (Inr path) \<Rightarrow> Some (Inr (Some path, s)))"

text \<open>
  The positions at which the layout can be read: those for which \<open>layout[row][col]\<close> does
  not raise. There are finitely many, and a position pushed into a frontier is one of them
  that is not yet a key of \<open>previous\<close>; this is why the search loops end.
\<close>

definition readable :: "char list list \<Rightarrow> cell set" where
  "readable l = {rc. \<exists>ch. py_index2 l (fst rc) (snd rc) = Inr ch}"

definition unseen :: "GridSearch \<Rightarrow> 'f search \<Rightarrow> nat" where
  "unseen g s = card (readable (layout g) - dom (previous s))"

lemma finite_readable: "finite (readable l)"
proof -
  let ?R = "int (length l)"
  let ?C = "int (sum_list (map length l))"
  have "readable l \<subseteq> {- ?R..?R} \<times> {- ?C..?C}"
  proof
    fix rc assume "rc \<in> readable l"
    then obtain ch where ch: "py_index2 l (fst rc) (snd rc) = Inr ch"
      by (auto simp: readable_def)
    then obtain row where row: "py_index l (fst rc) = Inr row" "py_index row (snd rc) = Inr ch"
      by (auto simp: py_index2_def split: sum.splits)
    from row(1) have r: "- ?R \<le> fst rc" "fst rc \<le> ?R" "row \<in> set l"
      by (auto simp: py_index_def split: if_splits)
    from r(3) have "length row \<le> sum_list (map length l)"
      by (intro member_le_sum_list) auto
    with row(2) have "- ?C \<le> snd rc" "snd rc \<le> ?C"
      by (auto simp: py_index_def split: if_splits)
    with r show "rc \<in> {- ?R..?R} \<times> {- ?C..?C}"
      by (cases rc) auto
  qed
  then show ?thesis by (rule finite_subset) simp
qed

lemma unseen_insert:
  assumes "py_index2 (layout g) (fst nb) (snd nb) = Inr ch" "previous s nb = None"
  shows "unseen g (s\<lparr>previous := (previous s)(nb \<mapsto> v)\<rparr>) < unseen g s"
proof -
  let ?A = "readable (layout g) - dom (previous s)"
  from assms have "nb \<in> ?A" by (auto simp: readable_def)
  moreover have "finite ?A" by (simp add: finite_readable)
  ultimately have "card (?A - {nb}) < card ?A" by (intro card_Diff1_less)
  moreover have "readable (layout g) - dom ((previous s)(nb \<mapsto> v)) = ?A - {nb}" by auto
  ultimately show ?thesis
    unfolding unseen_def by simp
qed

declare get_path_loop.simps [code]

declare swap_down.simps [code]

subsection \<open>dfs\<close>

text \<open>
  One pass of the body of \<open>for direction in idx\<close> in \<open>dfs\<close>: the neighbour is computed, the
  layout is read at it, and when the character is neither \<open>#\<close> nor \<open>*\<close> and the neighbour is
  not a key of \<open>previous\<close>, it is pushed, recorded and counted.
\<close>

definition dfs_visit :: "GridSearch \<Rightarrow> cell \<Rightarrow> nat \<Rightarrow> cell Stack search \<Rightarrow> error + cell Stack search" where
  "dfs_visit g current direction s =
     (case neighbour_of g current direction of
        Inl e \<Rightarrow> Inl e
      | Inr neighbour \<Rightarrow>
          (case py_index2 (layout g) (fst neighbour) (snd neighbour) of
             Inl e \<Rightarrow> Inl e
           | Inr ch \<Rightarrow>
               if ch \<noteq> CHR ''#'' \<and> ch \<noteq> CHR ''*'' \<and> previous s neighbour = None
               then Inr (s\<lparr>frontier := push (frontier s) neighbour,
                           previous := (previous s)(neighbour \<mapsto> Some current),
                           n_added := n_added s + 1,
                           trace := trace s @ [Read neighbour, Push neighbour]\<rparr>)
               else Inr (s\<lparr>trace := trace s @ [Read neighbour]\<rparr>)))"

fun dfs_expand :: "GridSearch \<Rightarrow> cell \<Rightarrow> nat list \<Rightarrow> cell Stack search \<Rightarrow> error + cell Stack search" where
  "dfs_expand g current [] s = Inr s"
| "dfs_expand g current (direction # idx) s =
     (case dfs_visit g current direction s of
        Inl e \<Rightarrow> Inl e
      | Inr s' \<Rightarrow> dfs_expand g current idx s')"

lemma dfs_visit_measure:
  "dfs_visit g current direction s = Inr s' \<Longrightarrow>
     2 * unseen g s' + size_st (frontier s') \<le> 2 * unseen g s + size_st (frontier s)"
proof (cases "neighbour_of g current direction")
  case (Inl e)
  moreover assume "dfs_visit g current direction s = Inr s'"
  ultimately show ?thesis by (simp add: dfs_visit_def)
next
  case (Inr nb)
  assume v: "dfs_visit g current direction s = Inr s'"
  with Inr obtain ch where ch: "py_index2 (layout g) (fst nb) (snd nb) = Inr ch"
    by (auto simp: dfs_visit_def split: sum.splits)
  show ?thesis
  proof (cases "ch \<noteq> CHR ''#'' \<and> ch \<noteq> CHR ''*'' \<and> previous s nb = None")
    case True
    with unseen_insert[OF ch, of s "Some current"]
    have "unseen g (s\<lparr>previous := (previous s)(nb \<mapsto> Some current)\<rparr>) < unseen g s" by simp
    moreover from v Inr ch True have "unseen g s' = unseen g (s\<lparr>previous := (previous s)(nb \<mapsto> Some current)\<rparr>)"
      "size_st (frontier s') = size_st (frontier s) + 1"
      by (auto simp: dfs_visit_def unseen_def push_def)
    ultimately show ?thesis by simp
  next
    case False
    with v Inr ch have "unseen g s' = unseen g s" "frontier s' = frontier s"
      by (auto simp: dfs_visit_def unseen_def)
    then show ?thesis by simp
  qed
qed

lemma dfs_expand_measure:
  "dfs_expand g current idx s = Inr s' \<Longrightarrow>
     2 * unseen g s' + size_st (frontier s') \<le> 2 * unseen g s + size_st (frontier s)"
proof (induction idx arbitrary: s)
  case Nil
  then show ?case by simp
next
  case (Cons d idx)
  then obtain s1 where s1: "dfs_visit g current d s = Inr s1" "dfs_expand g current idx s1 = Inr s'"
    by (auto split: sum.splits)
  from Cons.IH[OF s1(2)] dfs_visit_measure[OF s1(1)] show ?case by simp
qed

text \<open>
  The loop \<open>while (not stack.is_empty())\<close> of \<open>dfs\<close>. \<open>pop\<close> returns \<open>None\<close> only on an
  empty stack, so \<open>current\<close> is a position in the loop; the branch for \<open>None\<close> is what the
  body would do with it.
\<close>

function dfs_loop :: "GridSearch \<Rightarrow> (nat \<Rightarrow> nat list) \<Rightarrow> cell Stack search \<Rightarrow> cell Stack search_result" where
  "dfs_loop g rnd s =
     (if is_empty_st (frontier s) then Some (Inr (None, s))
      else
        (case pop (frontier s) of
           Inl e \<Rightarrow> Some (Inl e)
         | Inr (None, st) \<Rightarrow>
             (let s1 = s\<lparr>frontier := st, n_visited := n_visited s + 1\<rparr> in
              if goal g = None then found g s1
              else (case order_dir g rnd (n_visited s) of
                      Inl e \<Rightarrow> Some (Inl e)
                    | Inr idx \<Rightarrow> (case non_cell_error g idx of
                                   Some e \<Rightarrow> Some (Inl e)
                                 | None \<Rightarrow> dfs_loop g rnd s1)))
         | Inr (Some current, st) \<Rightarrow>
             (let s1 = s\<lparr>frontier := st, n_visited := n_visited s + 1,
                         trace := trace s @ [Pop current]\<rparr> in
              if Some current = goal g then found g s1
              else (case order_dir g rnd (n_visited s) of
                      Inl e \<Rightarrow> Some (Inl e)
                    | Inr idx \<Rightarrow> (case dfs_expand g current idx s1 of
                                   Inl e \<Rightarrow> Some (Inl e)
                                 | Inr s2 \<Rightarrow> dfs_loop g rnd s2)))))"
  by pat_completeness auto
termination
proof (relation "measure (\<lambda>(g, rnd, s). 2 * unseen g s + size_st (frontier s))", goal_cases)
  case 1
  show ?case by simp
next
  case (2 g rnd s x2 x1 st s1 x2a)
  then show ?case
    by (auto simp: pop_def is_empty_st_def split: if_splits)
next
  case (3 g rnd s x2 x1 st x2a s1 idx s2)
  then have "size_st st < size_st (frontier s)"
    by (auto simp: pop_def is_empty_st_def split: if_splits)
  moreover from 3 have "unseen g s1 = unseen g s" "frontier s1 = st"
    by (auto simp: unseen_def)
  moreover from 3 have "2 * unseen g s2 + size_st (frontier s2) \<le> 2 * unseen g s1 + size_st (frontier s1)"
    by (intro dfs_expand_measure) auto
  ultimately show ?case by simp
qed


subsection \<open>bfs\<close>

text \<open>
  One pass of the body of \<open>for direction in idx\<close> in \<open>bfs\<close>: the neighbour is computed, the
  layout is read at it, and when the character is neither \<open>#\<close> nor \<open>*\<close> and the neighbour is
  not a key of \<open>previous\<close>, it is enqueued, recorded and counted.
\<close>

definition bfs_visit :: "GridSearch \<Rightarrow> cell \<Rightarrow> nat \<Rightarrow> cell Queue search \<Rightarrow> error + cell Queue search" where
  "bfs_visit g current direction s =
     (case neighbour_of g current direction of
        Inl e \<Rightarrow> Inl e
      | Inr neighbour \<Rightarrow>
          (case py_index2 (layout g) (fst neighbour) (snd neighbour) of
             Inl e \<Rightarrow> Inl e
           | Inr ch \<Rightarrow>
               if ch \<noteq> CHR ''#'' \<and> ch \<noteq> CHR ''*'' \<and> previous s neighbour = None
               then Inr (s\<lparr>frontier := enqueue (frontier s) neighbour,
                           previous := (previous s)(neighbour \<mapsto> Some current),
                           n_added := n_added s + 1,
                           trace := trace s @ [Read neighbour, Push neighbour]\<rparr>)
               else Inr (s\<lparr>trace := trace s @ [Read neighbour]\<rparr>)))"

fun bfs_expand :: "GridSearch \<Rightarrow> cell \<Rightarrow> nat list \<Rightarrow> cell Queue search \<Rightarrow> error + cell Queue search" where
  "bfs_expand g current [] s = Inr s"
| "bfs_expand g current (direction # idx) s =
     (case bfs_visit g current direction s of
        Inl e \<Rightarrow> Inl e
      | Inr s' \<Rightarrow> bfs_expand g current idx s')"

lemma bfs_visit_measure:
  "bfs_visit g current direction s = Inr s' \<Longrightarrow>
     2 * unseen g s' + size_qu (frontier s') \<le> 2 * unseen g s + size_qu (frontier s)"
proof (cases "neighbour_of g current direction")
  case (Inl e)
  moreover assume "bfs_visit g current direction s = Inr s'"
  ultimately show ?thesis by (simp add: bfs_visit_def)
next
  case (Inr nb)
  assume v: "bfs_visit g current direction s = Inr s'"
  with Inr obtain ch where ch: "py_index2 (layout g) (fst nb) (snd nb) = Inr ch"
    by (auto simp: bfs_visit_def split: sum.splits)
  show ?thesis
  proof (cases "ch \<noteq> CHR ''#'' \<and> ch \<noteq> CHR ''*'' \<and> previous s nb = None")
    case True
    with unseen_insert[OF ch, of s "Some current"]
    have "unseen g (s\<lparr>previous := (previous s)(nb \<mapsto> Some current)\<rparr>) < unseen g s" by simp
    moreover from v Inr ch True have "unseen g s' = unseen g (s\<lparr>previous := (previous s)(nb \<mapsto> Some current)\<rparr>)"
      "size_qu (frontier s') = size_qu (frontier s) + 1"
      by (auto simp: bfs_visit_def unseen_def enqueue_def)
    ultimately show ?thesis by simp
  next
    case False
    with v Inr ch have "unseen g s' = unseen g s" "frontier s' = frontier s"
      by (auto simp: bfs_visit_def unseen_def)
    then show ?thesis by simp
  qed
qed

lemma bfs_expand_measure:
  "bfs_expand g current idx s = Inr s' \<Longrightarrow>
     2 * unseen g s' + size_qu (frontier s') \<le> 2 * unseen g s + size_qu (frontier s)"
proof (induction idx arbitrary: s)
  case Nil
  then show ?case by simp
next
  case (Cons d idx)
  then obtain s1 where s1: "bfs_visit g current d s = Inr s1" "bfs_expand g current idx s1 = Inr s'"
    by (auto split: sum.splits)
  from Cons.IH[OF s1(2)] bfs_visit_measure[OF s1(1)] show ?case by simp
qed

text \<open>
  The loop \<open>while (not queue.is_empty())\<close> of \<open>bfs\<close>. \<open>dequeue\<close> returns \<open>None\<close> only on an
  empty queue, so \<open>current\<close> is a position in the loop; the branch for \<open>None\<close> is what the
  body would do with it.
\<close>

function bfs_loop :: "GridSearch \<Rightarrow> (nat \<Rightarrow> nat list) \<Rightarrow> cell Queue search \<Rightarrow> cell Queue search_result" where
  "bfs_loop g rnd s =
     (if is_empty_qu (frontier s) then Some (Inr (None, s))
      else
        (case dequeue (frontier s) of
           Inl e \<Rightarrow> Some (Inl e)
         | Inr (None, qu) \<Rightarrow>
             (let s1 = s\<lparr>frontier := qu, n_visited := n_visited s + 1\<rparr> in
              if goal g = None then found g s1
              else (case order_dir g rnd (n_visited s) of
                      Inl e \<Rightarrow> Some (Inl e)
                    | Inr idx \<Rightarrow> (case non_cell_error g idx of
                                   Some e \<Rightarrow> Some (Inl e)
                                 | None \<Rightarrow> bfs_loop g rnd s1)))
         | Inr (Some current, qu) \<Rightarrow>
             (let s1 = s\<lparr>frontier := qu, n_visited := n_visited s + 1,
                         trace := trace s @ [Pop current]\<rparr> in
              if Some current = goal g then found g s1
              else (case order_dir g rnd (n_visited s) of
                      Inl e \<Rightarrow> Some (Inl e)
                    | Inr idx \<Rightarrow> (case bfs_expand g current idx s1 of
                                   Inl e \<Rightarrow> Some (Inl e)
                                 | Inr s2 \<Rightarrow> bfs_loop g rnd s2)))))"
  by pat_completeness auto
termination
proof (relation "measure (\<lambda>(g, rnd, s). 2 * unseen g s + size_qu (frontier s))", goal_cases)
  case 1
  show ?case by simp
next
  case (2 g rnd s x2 x1 st s1 x2a)
  then show ?case
    by (auto simp: dequeue_def is_empty_qu_def split: if_splits)
next
  case (3 g rnd s x2 x1 st x2a s1 idx s2)
  then have "size_qu st < size_qu (frontier s)"
    by (auto simp: dequeue_def is_empty_qu_def split: if_splits)
  moreover from 3 have "unseen g s1 = unseen g s" "frontier s1 = st"
    by (auto simp: unseen_def)
  moreover from 3 have "2 * unseen g s2 + size_qu (frontier s2) \<le> 2 * unseen g s1 + size_qu (frontier s1)"
    by (intro bfs_expand_measure) auto
  ultimately show ?case by simp
qed

subsection \<open>A_star\<close>

text \<open>The Manhattan distance between two positions.\<close>

definition heuristic :: "cell \<Rightarrow> cell \<Rightarrow> int" where
  "heuristic a b = \<bar>fst a - fst b\<bar> + \<bar>snd a - snd b\<bar>"

text \<open>
  One pass of the body of \<open>for direction in idx\<close> in \<open>A_star\<close>; \<open>gl\<close> is the goal.
  \<open>g_values[current]\<close> raises KeyError on a missing key.
\<close>

definition A_star_visit ::
    "GridSearch \<Rightarrow> cell \<Rightarrow> cell \<Rightarrow> nat \<Rightarrow> cell PriorityQueue search \<Rightarrow> error + cell PriorityQueue search" where
  "A_star_visit g gl current direction s =
     (case neighbour_of g current direction of
        Inl e \<Rightarrow> Inl e
      | Inr neighbour \<Rightarrow>
          (case py_index2 (layout g) (fst neighbour) (snd neighbour) of
             Inl e \<Rightarrow> Inl e
           | Inr ch \<Rightarrow>
               if ch \<noteq> CHR ''#'' \<and> ch \<noteq> CHR ''*'' \<and> previous s neighbour = None
               then (case g_values s current of
                       None \<Rightarrow> Inl KeyError
                     | Some gc \<Rightarrow>
                         (let gn = gc + 1; h = heuristic gl neighbour; f = gn + h in
                          case put_pq (frontier s) (Num f) neighbour of
                            Inl e \<Rightarrow> Inl e
                          | Inr q \<Rightarrow>
                              Inr (s\<lparr>frontier := q,
                                     g_values := (g_values s)(neighbour \<mapsto> gn),
                                     previous := (previous s)(neighbour \<mapsto> Some current),
                                     n_added := n_added s + 1,
                                     trace := trace s @ [Read neighbour, Push neighbour]\<rparr>)))
               else Inr (s\<lparr>trace := trace s @ [Read neighbour]\<rparr>)))"

fun A_star_expand ::
    "GridSearch \<Rightarrow> cell \<Rightarrow> cell \<Rightarrow> nat list \<Rightarrow> cell PriorityQueue search \<Rightarrow> error + cell PriorityQueue search" where
  "A_star_expand g gl current [] s = Inr s"
| "A_star_expand g gl current (direction # idx) s =
     (case A_star_visit g gl current direction s of
        Inl e \<Rightarrow> Inl e
      | Inr s' \<Rightarrow> A_star_expand g gl current idx s')"

lemma A_star_visit_measure:
  "A_star_visit g gl current direction s = Inr s' \<Longrightarrow>
     2 * unseen g s' + size_pq (frontier s') \<le> 2 * unseen g s + size_pq (frontier s)"
proof (cases "neighbour_of g current direction")
  case (Inl e)
  moreover assume "A_star_visit g gl current direction s = Inr s'"
  ultimately show ?thesis by (simp add: A_star_visit_def)
next
  case (Inr nb)
  assume v: "A_star_visit g gl current direction s = Inr s'"
  with Inr obtain ch where ch: "py_index2 (layout g) (fst nb) (snd nb) = Inr ch"
    by (auto simp: A_star_visit_def split: sum.splits)
  show ?thesis
  proof (cases "ch \<noteq> CHR ''#'' \<and> ch \<noteq> CHR ''*'' \<and> previous s nb = None")
    case True
    with unseen_insert[OF ch, of s "Some current"]
    have "unseen g (s\<lparr>previous := (previous s)(nb \<mapsto> Some current)\<rparr>) < unseen g s" by simp
    moreover from v Inr ch True have "unseen g s' = unseen g (s\<lparr>previous := (previous s)(nb \<mapsto> Some current)\<rparr>)"
      "size_pq (frontier s') = size_pq (frontier s) + 1"
      by (auto simp: A_star_visit_def unseen_def put_pq_def Let_def split: option.splits sum.splits)
    ultimately show ?thesis by simp
  next
    case False
    with v Inr ch have "unseen g s' = unseen g s" "frontier s' = frontier s"
      by (auto simp: A_star_visit_def unseen_def)
    then show ?thesis by simp
  qed
qed

lemma A_star_expand_measure:
  "A_star_expand g gl current idx s = Inr s' \<Longrightarrow>
     2 * unseen g s' + size_pq (frontier s') \<le> 2 * unseen g s + size_pq (frontier s)"
proof (induction idx arbitrary: s)
  case Nil
  then show ?case by simp
next
  case (Cons d idx)
  then obtain s1 where s1: "A_star_visit g gl current d s = Inr s1" "A_star_expand g gl current idx s1 = Inr s'"
    by (auto split: sum.splits)
  from Cons.IH[OF s1(2)] A_star_visit_measure[OF s1(1)] show ?case by simp
qed

text \<open>
  The loop \<open>while (not pq.is_empty())\<close> of \<open>A_star\<close>. \<open>f, current = pq.get()\<close> raises
  TypeError if \<open>get\<close> returns \<open>None\<close>, and when the entry returned is a dummy entry,
  \<open>current\<close> is the dummy string, which is not the goal and not a position.
\<close>

function A_star_loop ::
    "GridSearch \<Rightarrow> cell \<Rightarrow> (nat \<Rightarrow> nat list) \<Rightarrow> cell PriorityQueue search \<Rightarrow> cell PriorityQueue search_result" where
  "A_star_loop g gl rnd s =
     (if is_empty_pq (frontier s) then Some (Inr (None, s))
      else
        (case get_pq (frontier s) of
           (Inl e, q) \<Rightarrow> Some (Inl e)
         | (Inr None, q) \<Rightarrow> Some (Inl TypeError)
         | (Inr (Some (f, Dummy)), q) \<Rightarrow>
             (let s1 = s\<lparr>frontier := q, n_visited := n_visited s + 1\<rparr> in
              case order_dir g rnd (n_visited s) of
                Inl e \<Rightarrow> Some (Inl e)
              | Inr idx \<Rightarrow> (case non_cell_error g idx of
                             Some e \<Rightarrow> Some (Inl e)
                           | None \<Rightarrow> A_star_loop g gl rnd s1))
         | (Inr (Some (f, Item current)), q) \<Rightarrow>
             (let s1 = s\<lparr>frontier := q, n_visited := n_visited s + 1,
                         trace := trace s @ [Pop current]\<rparr> in
              if Some current = goal g then found g s1
              else (case order_dir g rnd (n_visited s) of
                      Inl e \<Rightarrow> Some (Inl e)
                    | Inr idx \<Rightarrow> (case A_star_expand g gl current idx s1 of
                                   Inl e \<Rightarrow> Some (Inl e)
                                 | Inr s2 \<Rightarrow> A_star_loop g gl rnd s2)))))"
  by pat_completeness auto
termination
proof (relation "measure (\<lambda>(g, gl, rnd, s). 2 * unseen g s + size_pq (frontier s))", goal_cases)
  case 1
  show ?case by simp
next
  case 2
  then show ?case
    by (auto simp: get_pq_def is_empty_pq_def Let_def unseen_def split: if_splits)
next
  case 3
  then show ?case
    by (auto simp: get_pq_def is_empty_pq_def Let_def unseen_def split: if_splits
        dest!: A_star_expand_measure)
qed

subsection \<open>Dijkstra\<close>

text \<open>
  The items of the heap are the tuples \<open>(g, position)\<close>, which Python compares
  lexicographically. One pass of the body of \<open>for direction in idx\<close> in \<open>Dijkstra\<close>:
\<close>

type_synonym node = "int \<times> cell"

definition Dijkstra_visit ::
    "GridSearch \<Rightarrow> cell \<Rightarrow> nat \<Rightarrow> node BinaryHeap search \<Rightarrow> error + node BinaryHeap search" where
  "Dijkstra_visit g current direction s =
     (case neighbour_of g current direction of
        Inl e \<Rightarrow> Inl e
      | Inr neighbour \<Rightarrow>
          (case py_index2 (layout g) (fst neighbour) (snd neighbour) of
             Inl e \<Rightarrow> Inl e
           | Inr ch \<Rightarrow>
               if ch \<noteq> CHR ''#'' \<and> ch \<noteq> CHR ''*'' \<and> previous s neighbour = None
               then (case g_values s current of
                       None \<Rightarrow> Inl KeyError
                     | Some gc \<Rightarrow>
                         (let gn = gc + 1 in
                          case put_bh (frontier s) (gn, neighbour) of
                            Inl e \<Rightarrow> Inl e
                          | Inr h \<Rightarrow>
                              Inr (s\<lparr>frontier := h,
                                     g_values := (g_values s)(neighbour \<mapsto> gn),
                                     previous := (previous s)(neighbour \<mapsto> Some current),
                                     n_added := n_added s + 1,
                                     trace := trace s @ [Read neighbour, Push neighbour]\<rparr>)))
               else Inr (s\<lparr>trace := trace s @ [Read neighbour]\<rparr>)))"

fun Dijkstra_expand ::
    "GridSearch \<Rightarrow> cell \<Rightarrow> nat list \<Rightarrow> node BinaryHeap search \<Rightarrow> error + node BinaryHeap search" where
  "Dijkstra_expand g current [] s = Inr s"
| "Dijkstra_expand g current (direction # idx) s =
     (case Dijkstra_visit g current direction s of
        Inl e \<Rightarrow> Inl e
      | Inr s' \<Rightarrow> Dijkstra_expand g current idx s')"

lemma Dijkstra_visit_measure:
  "Dijkstra_visit g current direction s = Inr s' \<Longrightarrow>
     2 * unseen g s' + size_bh (frontier s') \<le> 2 * unseen g s + size_bh (frontier s)"
proof (cases "neighbour_of g current direction")
  case (Inl e)
  moreover assume "Dijkstra_visit g current direction s = Inr s'"
  ultimately show ?thesis by (simp add: Dijkstra_visit_def)
next
  case (Inr nb)
  assume v: "Dijkstra_visit g current direction s = Inr s'"
  with Inr obtain ch where ch: "py_index2 (layout g) (fst nb) (snd nb) = Inr ch"
    by (auto simp: Dijkstra_visit_def split: sum.splits)
  show ?thesis
  proof (cases "ch \<noteq> CHR ''#'' \<and> ch \<noteq> CHR ''*'' \<and> previous s nb = None")
    case True
    with unseen_insert[OF ch, of s "Some current"]
    have "unseen g (s\<lparr>previous := (previous s)(nb \<mapsto> Some current)\<rparr>) < unseen g s" by simp
    moreover from v Inr ch True have "unseen g s' = unseen g (s\<lparr>previous := (previous s)(nb \<mapsto> Some current)\<rparr>)"
      "size_bh (frontier s') = size_bh (frontier s) + 1"
      by (auto simp: Dijkstra_visit_def unseen_def put_bh_def Let_def split: option.splits sum.splits)
    ultimately show ?thesis by simp
  next
    case False
    with v Inr ch have "unseen g s' = unseen g s" "frontier s' = frontier s"
      by (auto simp: Dijkstra_visit_def unseen_def)
    then show ?thesis by simp
  qed
qed

lemma Dijkstra_expand_measure:
  "Dijkstra_expand g current idx s = Inr s' \<Longrightarrow>
     2 * unseen g s' + size_bh (frontier s') \<le> 2 * unseen g s + size_bh (frontier s)"
proof (induction idx arbitrary: s)
  case Nil
  then show ?case by simp
next
  case (Cons d idx)
  then obtain s1 where s1: "Dijkstra_visit g current d s = Inr s1" "Dijkstra_expand g current idx s1 = Inr s'"
    by (auto split: sum.splits)
  from Cons.IH[OF s1(2)] Dijkstra_visit_measure[OF s1(1)] show ?case by simp
qed

lemma get_bh_size:
  "get_bh h = Some (Inr (x, h')) \<Longrightarrow> size_bh h \<noteq> 0 \<Longrightarrow> size_bh h' < size_bh h"
  by (auto simp: get_bh_def Let_def split: if_splits option.splits sum.splits)

text \<open>
  The loop \<open>while (not bh.is_empty())\<close> of \<open>Dijkstra\<close>. \<open>(g, current) = bh.get()\<close> raises
  TypeError if \<open>get\<close> returns \<open>None\<close>.
\<close>

function Dijkstra_loop ::
    "GridSearch \<Rightarrow> (nat \<Rightarrow> nat list) \<Rightarrow> node BinaryHeap search \<Rightarrow> node BinaryHeap search_result" where
  "Dijkstra_loop g rnd s =
     (if is_empty_bh (frontier s) then Some (Inr (None, s))
      else
        (case get_bh (frontier s) of
           None \<Rightarrow> None
         | Some (Inl e) \<Rightarrow> Some (Inl e)
         | Some (Inr (None, h)) \<Rightarrow> Some (Inl TypeError)
         | Some (Inr (Some (gc, current), h)) \<Rightarrow>
             (let s1 = s\<lparr>frontier := h, n_visited := n_visited s + 1,
                         trace := trace s @ [Pop current]\<rparr> in
              if Some current = goal g then found g s1
              else (case order_dir g rnd (n_visited s) of
                      Inl e \<Rightarrow> Some (Inl e)
                    | Inr idx \<Rightarrow> (case Dijkstra_expand g current idx s1 of
                                   Inl e \<Rightarrow> Some (Inl e)
                                 | Inr s2 \<Rightarrow> Dijkstra_loop g rnd s2)))))"
  by pat_completeness auto
termination
proof (relation "measure (\<lambda>(g, rnd, s). 2 * unseen g s + size_bh (frontier s))", goal_cases)
  case 1
  show ?case by simp
next
  case 2
  then show ?case
    by (auto simp: is_empty_bh_def unseen_def dest!: Dijkstra_expand_measure get_bh_size)
qed

subsection \<open>The four methods\<close>

text \<open>
  A method returns \<open>None\<close> when a loop does not end; otherwise the exception raised, or the
  returned value with the grid object, in which the search has set \<open>visited\<close> and \<open>added\<close>.
\<close>

type_synonym method_result = "(error + (cell list option \<times> GridSearch)) option"

definition finish :: "GridSearch \<Rightarrow> 'f search_result \<Rightarrow> method_result" where
  "finish g r =
     (case r of
        None \<Rightarrow> None
      | Some (Inl e) \<Rightarrow> Some (Inl e)
      | Some (Inr (p, s)) \<Rightarrow> Some (Inr (p, g\<lparr>visited := n_visited s, added := n_added s\<rparr>)))"

text \<open>
  \<open>dfs\<close>, \<open>bfs\<close> and \<open>Dijkstra\<close> called before a start was set: the frontier holds
  \<open>None\<close>, which is popped and counted. It equals the goal only when no goal was set, and
  \<open>get_path\<close> then returns the empty list; otherwise the loop over the directions raises,
  or, with no direction, the frontier is empty and the method returns \<open>None\<close>.
\<close>

definition no_start :: "GridSearch \<Rightarrow> (nat \<Rightarrow> nat list) \<Rightarrow> method_result" where
  "no_start g rnd =
     (if goal g = None then Some (Inr (Some [], g\<lparr>visited := 1, added := 1\<rparr>))
      else (case order_dir g rnd 0 of
              Inl e \<Rightarrow> Some (Inl e)
            | Inr idx \<Rightarrow> (case non_cell_error g idx of
                           Some e \<Rightarrow> Some (Inl e)
                         | None \<Rightarrow> Some (Inr (None, g\<lparr>visited := 1, added := 1\<rparr>)))))"

text \<open>The local variables of a search when its loop is entered.\<close>

definition dfs_start :: "cell \<Rightarrow> cell Stack search" where
  "dfs_start st = \<lparr>frontier = push (Stack_init None) st, previous = [st \<mapsto> None],
                    g_values = Map.empty, n_visited = 0, n_added = 1, trace = [Push st]\<rparr>"

definition bfs_start :: "cell \<Rightarrow> cell Queue search" where
  "bfs_start st = \<lparr>frontier = enqueue (Queue_init None) st, previous = [st \<mapsto> None],
                    g_values = Map.empty, n_visited = 0, n_added = 1, trace = [Push st]\<rparr>"

definition A_star_start :: "cell \<Rightarrow> cell \<Rightarrow> error + cell PriorityQueue search" where
  "A_star_start gl st =
     (case PriorityQueue_init None ''min'' of
        Inl e \<Rightarrow> Inl e
      | Inr pq \<Rightarrow>
          (let g0 = 0; h = heuristic gl st; f = g0 + h in
           case put_pq pq (Num f) st of
             Inl e \<Rightarrow> Inl e
           | Inr q \<Rightarrow> Inr \<lparr>frontier = q, previous = [st \<mapsto> None], g_values = [st \<mapsto> g0],
                            n_visited = 0, n_added = 1, trace = [Push st]\<rparr>))"

definition Dijkstra_start :: "cell \<Rightarrow> (error + node BinaryHeap search) option" where
  "Dijkstra_start st =
     (case BinaryHeap_init (0, (0, 0)) None ''min'' of
        None \<Rightarrow> None
      | Some (Inl e) \<Rightarrow> Some (Inl e)
      | Some (Inr bh) \<Rightarrow>
          (let g0 = 0 in
           case put_bh bh (g0, st) of
             Inl e \<Rightarrow> Some (Inl e)
           | Inr h \<Rightarrow> Some (Inr \<lparr>frontier = h, previous = [st \<mapsto> None], g_values = [st \<mapsto> g0],
                                  n_visited = 0, n_added = 1, trace = [Push st]\<rparr>)))"

definition dfs_run :: "GridSearch \<Rightarrow> (nat \<Rightarrow> nat list) \<Rightarrow> cell \<Rightarrow> cell Stack search_result" where
  "dfs_run g rnd st = dfs_loop g rnd (dfs_start st)"

definition bfs_run :: "GridSearch \<Rightarrow> (nat \<Rightarrow> nat list) \<Rightarrow> cell \<Rightarrow> cell Queue search_result" where
  "bfs_run g rnd st = bfs_loop g rnd (bfs_start st)"

definition A_star_run ::
    "GridSearch \<Rightarrow> (nat \<Rightarrow> nat list) \<Rightarrow> cell \<Rightarrow> cell \<Rightarrow> cell PriorityQueue search_result" where
  "A_star_run g rnd gl st =
     (case A_star_start gl st of
        Inl e \<Rightarrow> Some (Inl e)
      | Inr s \<Rightarrow> A_star_loop g gl rnd s)"

definition Dijkstra_run :: "GridSearch \<Rightarrow> (nat \<Rightarrow> nat list) \<Rightarrow> cell \<Rightarrow> node BinaryHeap search_result" where
  "Dijkstra_run g rnd st =
     (case Dijkstra_start st of
        None \<Rightarrow> None
      | Some (Inl e) \<Rightarrow> Some (Inl e)
      | Some (Inr s) \<Rightarrow> Dijkstra_loop g rnd s)"

definition dfs :: "GridSearch \<Rightarrow> (nat \<Rightarrow> nat list) \<Rightarrow> method_result" where
  "dfs g rnd = (case start g of None \<Rightarrow> no_start g rnd | Some st \<Rightarrow> finish g (dfs_run g rnd st))"

definition bfs :: "GridSearch \<Rightarrow> (nat \<Rightarrow> nat list) \<Rightarrow> method_result" where
  "bfs g rnd = (case start g of None \<Rightarrow> no_start g rnd | Some st \<Rightarrow> finish g (bfs_run g rnd st))"

text \<open>
  \<open>A_star\<close> first computes \<open>heuristic(self.goal, self.start)\<close>, which raises TypeError when
  the goal or the start is not set.
\<close>

definition A_star :: "GridSearch \<Rightarrow> (nat \<Rightarrow> nat list) \<Rightarrow> method_result" where
  "A_star g rnd =
     (case goal g of
        None \<Rightarrow> Some (Inl TypeError)
      | Some gl \<Rightarrow> (case start g of
                     None \<Rightarrow> Some (Inl TypeError)
                   | Some st \<Rightarrow> finish g (A_star_run g rnd gl st)))"

definition Dijkstra :: "GridSearch \<Rightarrow> (nat \<Rightarrow> nat list) \<Rightarrow> method_result" where
  "Dijkstra g rnd =
     (case start g of None \<Rightarrow> no_start g rnd | Some st \<Rightarrow> finish g (Dijkstra_run g rnd st))"

section \<open>Properties of the grid object\<close>

lemma in_star_cols: "j \<in> set (star_cols row) \<longleftrightarrow> j < length row \<and> row ! j = CHR ''*''"
  by (auto simp: star_cols_def)

lemma length_star_cols: "length (star_cols row) = count_list row CHR ''*''"
proof (induction row rule: rev_induct)
  case Nil
  show ?case by (simp add: star_cols_def)
next
  case (snoc x xs)
  have "filter (\<lambda>j. (xs @ [x]) ! j = CHR ''*'') [0..<length xs] =
        filter (\<lambda>j. xs ! j = CHR ''*'') [0..<length xs]"
    by (rule filter_cong) (auto simp: nth_append)
  with snoc show ?case by (simp add: star_cols_def)
qed

lemma star_cols_update:
  assumes "c < length row" "row ! c \<noteq> CHR ''*''" "v \<noteq> CHR ''*''"
  shows "star_cols (row[c := v]) = star_cols row"
  unfolding star_cols_def using assms
  by (auto intro!: filter_cong simp: nth_list_update)

lemma build_bound_Inr:
  "build_bound rows acc = Inr b \<longleftrightarrow>
     (\<forall>row \<in> set rows. 2 \<le> length (star_cols row)) \<and> b = acc @ map star_cols rows"
  by (induction rows arbitrary: acc) (auto simp: Let_def)

lemma build_bound_Inl:
  "build_bound rows acc = Inl e \<longleftrightarrow>
     e = SystemExit bounds_msg \<and> (\<exists>row \<in> set rows. length (star_cols row) \<le> 1)"
  by (induction rows arbitrary: acc) (auto simp: Let_def)

lemma init_Inr:
  "GridSearch_init (Some rows) = Inr g \<longleftrightarrow>
     (\<forall>row \<in> set rows. 2 \<le> length (star_cols row)) \<and>
     g = \<lparr>layout = rows, bound = map star_cols rows, start = None, goal = None,
          offset = None, prob = None, visited = 0, added = 0\<rparr>"
  by (fastforce simp: GridSearch_init_def build_bound_Inr build_bound_Inl split: sum.splits)

lemma in_column_of:
  "i \<in> set (column_of (map star_cols rows) col) \<longleftrightarrow>
     i < length rows \<and> 0 \<le> col \<and> is_star rows i (nat col)"
proof -
  have "col \<in> int ` set (star_cols r) \<longleftrightarrow> 0 \<le> col \<and> nat col \<in> set (star_cols r)" for r
    by (auto simp: image_iff intro: bexI[of _ "nat col"])
  then show ?thesis
    by (auto simp: column_of_def in_star_cols is_star_def)
qed

lemma distinct_column_of: "distinct (column_of b col)"
  by (simp add: column_of_def)

lemma le_int_Max: "xs \<noteq> [] \<Longrightarrow> col \<le> int (Max (set xs)) \<longleftrightarrow> (\<exists>a\<in>set xs. col \<le> int a)"
proof
  assume "xs \<noteq> []" "col \<le> int (Max (set xs))"
  moreover from \<open>xs \<noteq> []\<close> have "Max (set xs) \<in> set xs" by (intro Max_in) auto
  ultimately show "\<exists>a\<in>set xs. col \<le> int a" by blast
next
  assume "xs \<noteq> []" "\<exists>a\<in>set xs. col \<le> int a"
  then obtain a where "a \<in> set xs" "col \<le> int a" by blast
  moreover from this have "a \<le> Max (set xs)" by (intro Max_ge) auto
  ultimately show "col \<le> int (Max (set xs))" by linarith
qed

lemma int_Min_le: "xs \<noteq> [] \<Longrightarrow> int (Min (set xs)) \<le> col \<longleftrightarrow> (\<exists>a\<in>set xs. int a \<le> col)"
proof
  assume "xs \<noteq> []" "int (Min (set xs)) \<le> col"
  moreover from \<open>xs \<noteq> []\<close> have "Min (set xs) \<in> set xs" by (intro Min_in) auto
  ultimately show "\<exists>a\<in>set xs. int a \<le> col" by blast
next
  assume "xs \<noteq> []" "\<exists>a\<in>set xs. int a \<le> col"
  then obtain a where "a \<in> set xs" "int a \<le> col" by blast
  moreover from this have "Min (set xs) \<le> a" by (intro Min_le) auto
  ultimately show "int (Min (set xs)) \<le> col" by linarith
qed

lemma is_valid_inv:
  assumes inv: "grid_inv g"
  shows "is_valid g row col =
     (if row \<ge> int (length (layout g)) \<or> row \<le> 0 then Inr False
      else if \<not> row_bounded (layout g) row col then Inr False
      else if length (column_of (bound g) col) \<le> 1 then Inl (SystemExit bounds_msg)
      else if \<not> col_bounded (layout g) row col then Inr False
      else if is_star (layout g) (nat row) (nat col) then Inr False
      else Inr True)"
proof (cases "row \<ge> int (length (layout g)) \<or> row \<le> 0")
  case True
  with inv show ?thesis by (auto simp: grid_inv_def is_valid_def)
next
  case False
  let ?r = "nat row"
  let ?rows = "layout g"
  from False have r: "?r < length ?rows" "0 < row" by auto
  from inv have g: "bound g = map star_cols ?rows"
    and two: "\<forall>x \<in> set ?rows. 2 \<le> length (star_cols x)"
    by (auto simp: grid_inv_def)
  from r two have "2 \<le> length (star_cols (?rows ! ?r))" by simp
  then have ne: "star_cols (?rows ! ?r) \<noteq> []" by auto
  have rb: "row_bounded ?rows row col \<longleftrightarrow>
      \<not> (col > int (Max (set (star_cols (?rows ! ?r)))) \<or> col < int (Min (set (star_cols (?rows ! ?r)))))"
    using r
    apply (auto simp: row_bounded_def le_int_Max[OF ne] int_Min_le[OF ne] not_less
        in_star_cols is_star_def)
    subgoal for a aa by (rule exI[of _ aa], simp, rule exI[of _ a], simp)
    done
  have pre: "is_valid g row col =
      (if \<not> row_bounded ?rows row col then Inr False
       else let column = column_of (map star_cols ?rows) col in
         if length column \<le> 1 then Inl (SystemExit bounds_msg)
         else if row > int (Max (set column)) \<or> row < int (Min (set column)) then Inr False
         else (case py_index2 ?rows row col of
              Inl e \<Rightarrow> Inl e
            | Inr ch \<Rightarrow> if ch = CHR ''*'' then Inr False else Inr True))"
    unfolding is_valid_def Let_def g using False r ne rb by simp
  show ?thesis
  proof (cases "row_bounded ?rows row col")
    case nrb: False
    with False pre show ?thesis by simp
  next
    case yrb: True
    then obtain c1 c2 where c: "int c1 \<le> col" "col \<le> int c2" "c2 < length (?rows ! ?r)"
      by (auto simp: row_bounded_def is_star_def)
    then have idx: "py_index2 ?rows row col = Inr (?rows ! ?r ! nat col)"
      using r by (auto simp: py_index2_def py_index_def Let_def)
    have star: "is_star ?rows ?r (nat col) \<longleftrightarrow> ?rows ! ?r ! nat col = CHR ''*''"
      using c r by (auto simp: is_star_def)
    define column where "column = column_of (map star_cols ?rows) col"
    show ?thesis
    proof (cases "length column \<le> 1")
      case True
      with False yrb pre show ?thesis
        by (simp add: column_def g)
    next
      case big: False
      then have cne: "column \<noteq> []" by auto
      have mx: "row \<le> int (Max (set column)) \<longleftrightarrow> (\<exists>a\<in>set column. row \<le> int a)"
        by (rule le_int_Max[OF cne])
      have mn: "int (Min (set column)) \<le> row \<longleftrightarrow> (\<exists>a\<in>set column. int a \<le> row)"
        by (rule int_Min_le[OF cne])
      have mem: "a \<in> set column \<longleftrightarrow> is_star ?rows a (nat col)" for a
        using c by (auto simp: column_def in_column_of is_star_def)
      have cb: "col_bounded ?rows row col \<longleftrightarrow>
          \<not> (row > int (Max (set column)) \<or> row < int (Min (set column)))"
        unfolding col_bounded_def not_less de_Morgan_disj mx mn using mem by blast
      from False yrb big pre show ?thesis
        unfolding Let_def column_def[symmetric] g cb idx star by simp
    qed
  qed
qed

lemma is_valid_True_free:
  assumes "grid_inv g" "is_valid g row col = Inr True"
  shows "free_cell (layout g) (row, col)"
proof -
  from assms have a: "0 < row" "row < int (length (layout g))" "row_bounded (layout g) row col"
    "\<not> is_star (layout g) (nat row) (nat col)"
    by (auto simp: is_valid_inv split: if_splits)
  from a(3) obtain c1 c2 where "int c1 \<le> col" "col \<le> int c2" "c2 < length (layout g ! nat row)"
    by (auto simp: row_bounded_def is_star_def)
  with a show ?thesis by (auto simp: free_cell_def is_star_def)
qed

lemma py_assign2_free:
  "free_cell l (r, c) \<Longrightarrow> py_assign2 l r c v = Inr (put_char l (r, c) v)"
  by (auto simp: free_cell_def py_assign2_def py_index_def py_assign_def put_char_def Let_def)

lemma star_cols_put_char:
  assumes "free_cell l rc" "v \<noteq> CHR ''*''"
  shows "map star_cols (put_char l rc v) = map star_cols l"
proof -
  from assms have "star_cols ((l ! nat (fst rc))[nat (snd rc) := v]) = star_cols (l ! nat (fst rc))"
    by (intro star_cols_update) (auto simp: free_cell_def)
  moreover from assms have "nat (fst rc) < length l" by (simp add: free_cell_def)
  ultimately show ?thesis
    by (simp add: put_char_def map_update list_update_same_conv)
qed

lemma free_cell_put_char:
  assumes "free_cell l rc'" "v \<noteq> CHR ''*''"
  shows "free_cell (put_char l rc v) rc'"
  using assms
  by (cases "nat (fst rc) = nat (fst rc')"; cases "nat (snd rc) = nat (snd rc')")
     (auto simp: free_cell_def put_char_def)

lemma free_cell_put_char_same:
  assumes "free_cell l rc" "v \<noteq> CHR ''*''"
  shows "free_cell (put_char l rc v) rc"
  using assms by (rule free_cell_put_char)

lemma grid_inv_layout:
  assumes "grid_inv g" "map star_cols l = map star_cols (layout g)"
    "\<And>rc. free_cell (layout g) rc \<Longrightarrow> free_cell l rc"
    "\<And>rc. s = Some rc \<Longrightarrow> free_cell l rc" "\<And>rc. t = Some rc \<Longrightarrow> free_cell l rc"
  shows "grid_inv (g\<lparr>layout := l, start := s, goal := t\<rparr>)"
proof -
  have "(\<forall>row \<in> set l. 2 \<le> length (star_cols row)) \<longleftrightarrow> (\<forall>x \<in> set (map star_cols l). 2 \<le> length x)"
    by simp
  also have "\<dots> \<longleftrightarrow> (\<forall>x \<in> set (map star_cols (layout g)). 2 \<le> length x)"
    by (simp only: assms(2))
  finally have "\<forall>row \<in> set l. 2 \<le> length (star_cols row)"
    using assms(1) by (simp add: grid_inv_def)
  with assms show ?thesis by (simp add: grid_inv_def)
qed

lemma grid_inv_set_start: 
  assumes "grid_inv g" shows "grid_inv (snd (set_start g row col))"
proof (cases "is_valid g row col = Inr True")
  case False
  with assms show ?thesis by (auto simp: set_start_def split: sum.splits bool.splits)
next
  case True
  with assms have f: "free_cell (layout g) (row, col)" by (rule is_valid_True_free)
  define l1 where "l1 = (case start g of None \<Rightarrow> layout g | Some rc \<Rightarrow> put_char (layout g) rc CHR '' '')"
  have a1: "(case start g of None \<Rightarrow> Inr (layout g)
                 | Some (r0, c0) \<Rightarrow> py_assign2 (layout g) r0 c0 CHR '' '') = Inr l1"
    using assms by (auto simp: l1_def grid_inv_def py_assign2_free split: option.splits)
  have m1: "map star_cols l1 = map star_cols (layout g)"
    using assms by (auto simp: l1_def grid_inv_def star_cols_put_char split: option.splits)
  have f1: "free_cell (layout g) rc \<Longrightarrow> free_cell l1 rc" for rc
    by (auto simp: l1_def free_cell_put_char split: option.splits)
  let ?l2 = "put_char l1 (row, col) CHR ''S''"
  have a2: "py_assign2 l1 row col CHR ''S'' = Inr ?l2"
    using f f1 by (simp add: py_assign2_free)
  have res: "snd (set_start g row col) = g\<lparr>layout := ?l2, start := Some (row, col), goal := goal g\<rparr>"
    using True a1 a2 by (simp add: set_start_def Let_def)
  show ?thesis unfolding res
  proof (rule grid_inv_layout[OF assms])
    show "map star_cols ?l2 = map star_cols (layout g)"
      using f f1 m1 by (simp add: star_cols_put_char)
    show "free_cell ?l2 rc" if "free_cell (layout g) rc" for rc
      using that f1 by (simp add: free_cell_put_char)
    then show "free_cell ?l2 rc" if "Some (row, col) = Some rc" for rc
      using that f by auto
    show "free_cell ?l2 rc" if "goal g = Some rc" for rc
      using that assms f1 by (auto simp: grid_inv_def free_cell_put_char)
  qed
qed

lemma grid_inv_set_goal: 
  assumes "grid_inv g" shows "grid_inv (snd (set_goal g row col))"
proof (cases "is_valid g row col = Inr True")
  case False
  with assms show ?thesis by (auto simp: set_goal_def split: sum.splits bool.splits)
next
  case True
  with assms have f: "free_cell (layout g) (row, col)" by (rule is_valid_True_free)
  define l1 where "l1 = (case goal g of None \<Rightarrow> layout g | Some rc \<Rightarrow> put_char (layout g) rc CHR '' '')"
  have a1: "(case goal g of None \<Rightarrow> Inr (layout g)
                 | Some (r0, c0) \<Rightarrow> py_assign2 (layout g) r0 c0 CHR '' '') = Inr l1"
    using assms by (auto simp: l1_def grid_inv_def py_assign2_free split: option.splits)
  have m1: "map star_cols l1 = map star_cols (layout g)"
    using assms by (auto simp: l1_def grid_inv_def star_cols_put_char split: option.splits)
  have f1: "free_cell (layout g) rc \<Longrightarrow> free_cell l1 rc" for rc
    by (auto simp: l1_def free_cell_put_char split: option.splits)
  let ?l2 = "put_char l1 (row, col) CHR ''G''"
  have a2: "py_assign2 l1 row col CHR ''G'' = Inr ?l2"
    using f f1 by (simp add: py_assign2_free)
  have res: "snd (set_goal g row col) = g\<lparr>layout := ?l2, start := start g, goal := Some (row, col)\<rparr>"
    using True a1 a2 by (simp add: set_goal_def Let_def)
  show ?thesis unfolding res
  proof (rule grid_inv_layout[OF assms])
    show "map star_cols ?l2 = map star_cols (layout g)"
      using f f1 m1 by (simp add: star_cols_put_char)
    show "free_cell ?l2 rc" if "free_cell (layout g) rc" for rc
      using that f1 by (simp add: free_cell_put_char)
    then show "free_cell ?l2 rc" if "Some (row, col) = Some rc" for rc
      using that f by auto
    show "free_cell ?l2 rc" if "start g = Some rc" for rc
      using that assms f1 by (auto simp: grid_inv_def free_cell_put_char)
  qed
qed

lemma grid_inv_obstacle:
  assumes "grid_inv g" "v \<noteq> CHR ''*''"
  shows "grid_inv (snd (case is_valid g row col of
        Inl e \<Rightarrow> (Inl e, g)
      | Inr False \<Rightarrow> (Inl (SystemExit m), g)
      | Inr True \<Rightarrow>
          (case py_assign2 (layout g) row col v of
             Inl e \<Rightarrow> (Inl e, g)
           | Inr l \<Rightarrow> (Inr (), g\<lparr>layout := l\<rparr>))))"
proof (cases "is_valid g row col = Inr True")
  case False
  with assms show ?thesis by (auto split: sum.splits bool.splits)
next
  case True
  with assms have f: "free_cell (layout g) (row, col)" by (intro is_valid_True_free)
  let ?l = "put_char (layout g) (row, col) v"
  have "grid_inv (g\<lparr>layout := ?l, start := start g, goal := goal g\<rparr>)"
    using assms f by (intro grid_inv_layout) (auto simp: star_cols_put_char free_cell_put_char grid_inv_def)
  with True f show ?thesis by (simp add: py_assign2_free)
qed

lemma loaded_inv: "loaded g \<Longrightarrow> grid_inv g"
proof (induction rule: loaded.induct)
  case (loaded_init rows g)
  then show ?case by (auto simp: init_Inr grid_inv_def)
next
  case (loaded_add_obstacle g row col)
  then show ?case unfolding add_obstacle_def by (intro grid_inv_obstacle) auto
next
  case (loaded_del_obstacle g row col)
  then show ?case unfolding del_obstacle_def by (intro grid_inv_obstacle) auto
next
  case (loaded_set_start g row col)
  then show ?case by (simp add: grid_inv_set_start)
next
  case (loaded_set_goal g row col)
  then show ?case by (simp add: grid_inv_set_goal)
qed (auto simp: set_motion_def grid_inv_def)

lemma column_two:
  assumes "r1 < r2" "r1 \<in> set (column_of b col)" "r2 \<in> set (column_of b col)"
  shows "1 < length (column_of b col)"
proof -
  have "card {r1, r2} \<le> card (set (column_of b col))"
    using assms by (intro card_mono) auto
  also have "\<dots> = length (column_of b col)"
    by (simp add: distinct_card distinct_column_of)
  finally show ?thesis using assms by simp
qed

subsection \<open>Claims about the grid object\<close>

text \<open>
  C1, as amended: on every loaded grid \<open>is_valid(row, col)\<close> returns true if and only if
  \<open>row\<close> is a row index between 1 and the last row, \<open>col\<close> lies between two boundary
  cells of that row, \<open>row\<close> lies between two boundary cells of column \<open>col\<close>, and the cell is
  not a boundary cell. The character \<open>#\<close> is not looked at: an obstacle cell inside these
  ranges is valid.
\<close>

theorem is_valid_true_iff:
  assumes "loaded g"
  shows "is_valid g row col = Inr True \<longleftrightarrow>
     0 < row \<and> row < int (length (layout g)) \<and> row_bounded (layout g) row col \<and>
     col_bounded (layout g) row col \<and> \<not> is_star (layout g) (nat row) (nat col)"
proof -
  from assms have inv: "grid_inv g" by (rule loaded_inv)
  then have b: "bound g = map star_cols (layout g)" by (simp add: grid_inv_def)
  have "1 < length (column_of (bound g) col)"
    if "row_bounded (layout g) row col" "col_bounded (layout g) row col"
       "\<not> is_star (layout g) (nat row) (nat col)" "0 < row"
  proof -
    from that(2) obtain r1 r2 where r: "int r1 \<le> row" "row \<le> int r2"
      "is_star (layout g) r1 (nat col)" "is_star (layout g) r2 (nat col)"
      by (auto simp: col_bounded_def)
    from that(1) have c: "0 \<le> col" by (auto simp: row_bounded_def)
    from r that(3) have "r1 \<noteq> nat row" "r2 \<noteq> nat row" by auto
    with r have "r1 < r2" by linarith
    moreover from r c have "r1 \<in> set (column_of (bound g) col)" "r2 \<in> set (column_of (bound g) col)"
      by (auto simp: b in_column_of is_star_def)
    ultimately show ?thesis by (rule column_two)
  qed
  then show ?thesis
    unfolding is_valid_inv[OF inv] by (auto simp: not_le)
qed

text \<open>A loaded 3 by 3 grid with an obstacle in the middle, at which the theorem applies.\<close>

theorem is_valid_true_iff_witness:
  "loaded \<lparr>layout = [''***'', ''*#*'', ''***''], bound = [[0, 1, 2], [0, 2], [0, 1, 2]],
          start = None, goal = None, offset = None, prob = None, visited = 0, added = 0\<rparr> \<and>
   is_valid \<lparr>layout = [''***'', ''*#*'', ''***''], bound = [[0, 1, 2], [0, 2], [0, 1, 2]],
          start = None, goal = None, offset = None, prob = None, visited = 0, added = 0\<rparr> 1 1 = Inr True \<and>
   row_bounded [''***'', ''*#*'', ''***''] 1 1 \<and> col_bounded [''***'', ''*#*'', ''***''] 1 1"
proof -
  let ?g = "\<lparr>layout = [''***'', ''*#*'', ''***''], bound = [[0, 1, 2], [0, 2], [0, 1, 2]],
          start = None, goal = None, offset = None, prob = None, visited = 0, added = 0\<rparr>"
  have "GridSearch_init (Some [''***'', ''*#*'', ''***'']) = Inr ?g"
    by (simp add: GridSearch_init_def star_cols_def upt_rec)
  then have l: "loaded ?g" by (rule loaded_init)
  have v: "is_valid ?g 1 1 = Inr True"
    by (simp add: is_valid_def column_of_def py_index2_def py_index_def upt_rec)
  from is_valid_true_iff [OF l, of 1 1] l v show ?thesis by simp
qed

text \<open>
  C1 as stated fails: the cell (1, 1) of this loaded grid holds \<open>#\<close> and \<open>is_valid\<close>
  returns true for it.
\<close>

theorem is_valid_obstacle_counterexample:
  "(case GridSearch_init (Some [''***'', ''*#*'', ''***'']) of
      Inl e \<Rightarrow> Inl e | Inr g \<Rightarrow> is_valid g 1 1) = Inr True \<and>
   py_index2 [''***'', ''*#*'', ''***''] 1 1 = Inr CHR ''#''"
  by (simp add: GridSearch_init_def star_cols_def upt_rec is_valid_def column_of_def
      py_index2_def py_index_def)

text \<open>
  C3, as amended: loading fails with the exit "The grid bounds are not consistent." exactly
  when some row of the layout has fewer than two boundary cells, and then no grid object is
  produced; every layout whose rows all have at least two boundary cells loads. Columns are
  not checked at load time.
\<close>

theorem init_checks_rows:
  "(GridSearch_init (Some rows) = Inl (SystemExit bounds_msg) \<longleftrightarrow>
      (\<exists>row \<in> set rows. count_list row CHR ''*'' < 2)) \<and>
   ((\<exists>g. GridSearch_init (Some rows) = Inr g) \<longleftrightarrow>
      (\<forall>row \<in> set rows. 2 \<le> count_list row CHR ''*''))"
proof -
  have "GridSearch_init (Some rows) = Inl e \<longleftrightarrow> build_bound rows [] = Inl e" for e
    by (auto simp: GridSearch_init_def split: sum.splits)
  moreover have "length (star_cols row) \<le> 1 \<longleftrightarrow> count_list row CHR ''*'' < 2" for row
    by (auto simp: length_star_cols)
  ultimately show ?thesis
    by (simp add: build_bound_Inl init_Inr length_star_cols)
qed

text \<open>A layout with a one-star row is rejected; a layout with an empty column loads.\<close>

theorem init_checks_rows_witness:
  "GridSearch_init (Some [''****'', ''*   '', ''****'']) = Inl (SystemExit bounds_msg) \<and>
   (\<exists>g. GridSearch_init (Some [''* *'', ''* *'']) = Inr g)"
  using init_checks_rows [of "[''****'', ''*   '', ''****'']"] init_checks_rows [of "[''* *'', ''* *'']"]
  by simp

text \<open>
  C3 as stated fails for columns: column 1 of this layout has no boundary cell and the
  layout loads.
\<close>

theorem init_column_counterexample:
  "GridSearch_init (Some [''* *'', ''* *'']) =
     Inr \<lparr>layout = [''* *'', ''* *''], bound = [[0, 2], [0, 2]], start = None, goal = None,
          offset = None, prob = None, visited = 0, added = 0\<rparr> \<and>
   \<not> is_star [''* *'', ''* *''] 0 1 \<and> \<not> is_star [''* *'', ''* *''] 1 1"
  by (simp add: GridSearch_init_def star_cols_def upt_rec is_star_def)

text \<open>
  C4: when \<open>is_valid\<close> returns false for the cell, each of \<open>set_start\<close>, \<open>set_goal\<close>,
  \<open>add_obstacle\<close> and \<open>del_obstacle\<close> raises its own "position is not valid" exit and the
  grid object (layout, start, goal and every other attribute) is the one before the call.
\<close>

theorem placement_invalid_noop:
  assumes "is_valid g row col = Inr False"
  shows "set_start g row col = (Inl (SystemExit start_msg), g) \<and>
         set_goal g row col = (Inl (SystemExit goal_msg), g) \<and>
         add_obstacle g row col = (Inl (SystemExit obstacle_msg), g) \<and>
         del_obstacle g row col = (Inl (SystemExit obstacle_msg_del), g)"
  using assms by (simp add: set_start_def set_goal_def add_obstacle_def del_obstacle_def)

text \<open>The boundary cell (2, 1) of a grid whose start is set: the call changes nothing.\<close>

theorem placement_invalid_noop_witness:
  "is_valid \<lparr>layout = [''***'', ''* *'', ''***''], bound = [[0, 1, 2], [0, 2], [0, 1, 2]],
          start = Some (1, 1), goal = None, offset = None, prob = None, visited = 0, added = 0\<rparr> 2 1
     = Inr False \<and>
   set_start \<lparr>layout = [''***'', ''* *'', ''***''], bound = [[0, 1, 2], [0, 2], [0, 1, 2]],
          start = Some (1, 1), goal = None, offset = None, prob = None, visited = 0, added = 0\<rparr> 2 1
     = (Inl (SystemExit start_msg),
        \<lparr>layout = [''***'', ''* *'', ''***''], bound = [[0, 1, 2], [0, 2], [0, 1, 2]],
          start = Some (1, 1), goal = None, offset = None, prob = None, visited = 0, added = 0\<rparr>)"
proof -
  let ?g = "\<lparr>layout = [''***'', ''* *'', ''***''], bound = [[0, 1, 2], [0, 2], [0, 1, 2]],
          start = Some (1, 1), goal = None, offset = None, prob = None, visited = 0, added = 0\<rparr>"
  have v: "is_valid ?g 2 1 = Inr False"
    by (simp add: is_valid_def column_of_def py_index2_def py_index_def upt_rec)
  from placement_invalid_noop [OF v] v show ?thesis by simp
qed




section \<open>Properties of the priority queue\<close>

lemma move_left_in_order: "move_left qt p pm = in_order qt pm p"
  by (simp add: move_left_def in_order_def)

lemma in_order_trans: "in_order qt a b \<Longrightarrow> in_order qt b c \<Longrightarrow> in_order qt a c"
  by (auto simp: in_order_def split: if_splits)

lemma in_order_refl: "in_order qt a a"
  by (simp add: in_order_def)

lemma in_order_total: "\<not> in_order qt a b \<Longrightarrow> in_order qt b a"
  by (auto simp: in_order_def split: if_splits)

lemma sorted_wrt_nth_le:
  assumes "sorted_wrt (in_order qt) xs" "i \<le> j" "j < length xs"
  shows "in_order qt (xs ! i) (xs ! j)"
proof (cases "i = j")
  case True then show ?thesis by (simp add: in_order_refl)
next
  case False
  with assms show ?thesis by (auto simp: sorted_wrt_iff_nth_less)
qed

declare put_search.simps [simp del]

lemma put_search_spec:
  assumes "its = lo # cs @ [hi]" "sorted_wrt (in_order qt) (map fst cs)"
    "left < right" "right \<le> length cs + 1"
    "\<forall>j<left. in_order qt (fst (cs ! j)) p"
    "\<forall>j<length cs. right \<le> j + 1 \<longrightarrow> \<not> in_order qt (fst (cs ! j)) p"
  shows "\<exists>r. put_search qt its p left right = Inr r \<and> 0 < r \<and> r \<le> length cs + 1 \<and>
           (\<forall>j<r - 1. in_order qt (fst (cs ! j)) p) \<and>
           (\<forall>j<length cs. r \<le> j + 1 \<longrightarrow> \<not> in_order qt (fst (cs ! j)) p)"
  using assms
proof (induction qt its p left right rule: put_search.induct)
  case (1 qt its p left right)
  show ?case
  proof (cases "right > left + 1")
    case False
    with "1.prems" have "right = left + 1" by simp
    with "1.prems" show ?thesis
      by (subst put_search.simps) auto
  next
    case True
    define middle where "middle = (left + right) div 2"
    from True have m: "left < middle" "middle < right" by (auto simp: middle_def)
    with "1.prems" have len: "middle < length its" "middle - 1 < length cs" by auto
    from m "1.prems"(1) len have nth: "its ! middle = cs ! (middle - 1)"
      by (cases middle) (auto simp: nth_append)
    have srt: "in_order qt (fst (cs ! i)) (fst (cs ! j))" if "i \<le> j" "j < length cs" for i j
      using sorted_wrt_nth_le[OF "1.prems"(2), of i j] that by simp
    show ?thesis
    proof (cases "move_left qt p (fst (its ! middle))")
      case flag: True
      then have io: "in_order qt (fst (cs ! (middle - 1))) p"
        by (simp add: move_left_in_order nth)
      have a1: "\<forall>j<middle. in_order qt (fst (cs ! j)) p"
      proof (intro allI impI)
        fix j assume "j < middle"
        then have "in_order qt (fst (cs ! j)) (fst (cs ! (middle - 1)))"
          using len by (intro srt) auto
        then show "in_order qt (fst (cs ! j)) p" using io by (rule in_order_trans)
      qed
      have "\<exists>r. put_search qt its p middle right = Inr r \<and> 0 < r \<and> r \<le> length cs + 1 \<and>
           (\<forall>j<r - 1. in_order qt (fst (cs ! j)) p) \<and>
           (\<forall>j<length cs. r \<le> j + 1 \<longrightarrow> \<not> in_order qt (fst (cs ! j)) p)"
        using True len(1) flag "1.prems" m a1
        by (intro "1.IH"(1)[OF _ middle_def]) auto
      then show ?thesis
        using True len(1) flag by (subst put_search.simps) (simp add: middle_def Let_def)
    next
      case flag: False
      then have io: "\<not> in_order qt (fst (cs ! (middle - 1))) p"
        by (simp add: move_left_in_order nth)
      have a2: "\<forall>j<length cs. middle \<le> j + 1 \<longrightarrow> \<not> in_order qt (fst (cs ! j)) p"
      proof (intro allI impI notI)
        fix j assume j: "j < length cs" "middle \<le> j + 1" "in_order qt (fst (cs ! j)) p"
        then have "in_order qt (fst (cs ! (middle - 1))) (fst (cs ! j))"
          by (intro srt) auto
        then have "in_order qt (fst (cs ! (middle - 1))) p" using j(3) by (rule in_order_trans)
        with io show False by simp
      qed
      have "\<exists>r. put_search qt its p left middle = Inr r \<and> 0 < r \<and> r \<le> length cs + 1 \<and>
           (\<forall>j<r - 1. in_order qt (fst (cs ! j)) p) \<and>
           (\<forall>j<length cs. r \<le> j + 1 \<longrightarrow> \<not> in_order qt (fst (cs ! j)) p)"
        using True len(1) flag "1.prems" m a2
        by (intro "1.IH"(2)[OF _ middle_def]) auto
      then show ?thesis
        using True len(1) flag by (subst put_search.simps) (simp add: middle_def Let_def)
    qed
  qed
qed

lemma put_pq_inv:
  assumes "pq_inv q cs"
  shows "\<exists>q' k. put_pq q p x = Inr q' \<and> queue_type q' = queue_type q \<and>
            pq_inv q' (take k cs @ (p, Item x) # drop k cs) \<and>
            (\<forall>e\<in>set (take k cs). in_order (queue_type q) (fst e) p) \<and>
            (\<forall>e\<in>set (drop k cs). \<not> in_order (queue_type q) (fst e) p)"
proof -
  let ?qt = "queue_type q"
  from assms obtain lo hi where its: "items_pq q = lo # cs @ [hi]"
    and sz: "size_pq q = length cs" and srt: "sorted_wrt (in_order ?qt) (map fst cs)"
    by (auto simp: pq_inv_def)
  from put_search_spec[OF its srt, of 0 "size_pq q + 1" p]
  obtain r where r: "put_search ?qt (items_pq q) p 0 (size_pq q + 1) = Inr r" "0 < r"
    "r \<le> length cs + 1" "\<forall>j<r - 1. in_order ?qt (fst (cs ! j)) p"
    "\<forall>j<length cs. r \<le> j + 1 \<longrightarrow> \<not> in_order ?qt (fst (cs ! j)) p"
    by (auto simp: sz)
  define k where "k = r - 1"
  with r have k: "r = Suc k" "k \<le> length cs" by auto
  let ?cs' = "take k cs @ (p, Item x) # drop k cs"
  let ?q' = "q\<lparr>items_pq := list_insert (items_pq q) r (p, Item x), size_pq := size_pq q + 1\<rparr>"
  have before: "\<forall>e\<in>set (take k cs). in_order ?qt (fst e) p"
    using r(4) k by (fastforce simp: in_set_conv_nth)
  have after: "\<forall>e\<in>set (drop k cs). \<not> in_order ?qt (fst e) p"
  proof
    fix e assume "e \<in> set (drop k cs)"
    then obtain i where i: "i < length cs - k" "e = drop k cs ! i"
      by (auto simp: in_set_conv_nth)
    then have "e = cs ! (k + i)" "k + i < length cs" using k by auto
    with r(5) k show "\<not> in_order ?qt (fst e) p" by simp
  qed
  have ins: "list_insert (items_pq q) r (p, Item x) = lo # ?cs' @ [hi]"
    using k by (simp add: list_insert_def its)
  have "sorted_wrt (in_order ?qt) (map fst (take k cs) @ map fst (drop k cs))"
    using srt by (simp flip: map_append)
  then have parts: "sorted_wrt (in_order ?qt) (map fst (take k cs))"
    "sorted_wrt (in_order ?qt) (map fst (drop k cs))"
    "\<forall>a\<in>set (take k cs). \<forall>b\<in>set (drop k cs). in_order ?qt (fst a) (fst b)"
    unfolding sorted_wrt_append by auto
  have "sorted_wrt (in_order ?qt) (map fst ?cs')"
    using before after parts
    by (auto simp: sorted_wrt_append in_order_refl dest: in_order_total)
  then have "pq_inv ?q' ?cs'"
    using ins sz k by (simp add: pq_inv_def)
  moreover have "put_pq q p x = Inr ?q'"
    using r(1) by (simp add: put_pq_def)
  ultimately show ?thesis using before after by auto
qed

lemma fifo_put:
  assumes "fifo cs h" "\<forall>e\<in>set (take k cs). in_order qt (fst e) p"
    "\<forall>e\<in>set (drop k cs). \<not> in_order qt (fst e) p"
  shows "fifo (take k cs @ (p, i) # drop k cs) (h @ [(p, i)])"
proof -
  have none: "filter (\<lambda>e. fst e = p) (drop k cs) = []"
    using assms(3) by (auto simp: filter_empty_conv in_order_refl)
  have split: "filter P cs = filter P (take k cs) @ filter P (drop k cs)" for P
    by (metis append_take_drop_id filter_append)
  show ?thesis
    unfolding fifo_def
  proof
    fix p'
    show "filter (\<lambda>e. fst e = p') (take k cs @ (p, i) # drop k cs) =
          filter (\<lambda>e. fst e = p') (h @ [(p, i)])"
    proof (cases "p' = p")
      case True
      have "filter (\<lambda>e. fst e = p) (take k cs) = filter (\<lambda>e. fst e = p) h"
        using assms(1) split[of "\<lambda>e. fst e = p"] none by (simp add: fifo_def)
      with True none show ?thesis by simp
    next
      case False
      with assms(1) split[of "\<lambda>e. fst e = p'"] show ?thesis by (simp add: fifo_def)
    qed
  qed
qed

lemma get_pq_empty: "pq_inv q [] \<Longrightarrow> get_pq q = (Inr None, q)"
  by (simp add: get_pq_def pq_inv_def)

lemma get_pq_inv:
  assumes "pq_inv q (c # cs)"
  shows "\<exists>q'. get_pq q = (Inr (Some c), q') \<and> queue_type q' = queue_type q \<and> pq_inv q' cs"
  using assms by (auto simp: get_pq_def pq_inv_def Let_def)

lemma fifo_get:
  assumes "fifo (c # cs) h"
  shows "fifo cs (remove1 c h)"
  unfolding fifo_def
proof
  fix p
  have eq: "filter (\<lambda>e. fst e = p) (remove1 c h) = remove1 c (filter (\<lambda>e. fst e = p) h)"
    by (rule filter_remove1)
  show "filter (\<lambda>e. fst e = p) cs = filter (\<lambda>e. fst e = p) (remove1 c h)"
  proof (cases "fst c = p")
    case True
    with assms have "filter (\<lambda>e. fst e = p) h = c # filter (\<lambda>e. fst e = p) cs"
      by (auto simp: fifo_def dest: spec[of _ p])
    then show ?thesis by (simp add: eq)
  next
    case False
    with assms have "filter (\<lambda>e. fst e = p) h = filter (\<lambda>e. fst e = p) cs"
      by (auto simp: fifo_def dest: spec[of _ p])
    moreover from False have "c \<notin> set (filter (\<lambda>e. fst e = p) h)" by auto
    ultimately show ?thesis by (simp add: eq remove1_idem del: set_filter)
  qed
qed

lemma run_pq_inv:
  assumes "pq_inv q cs" "fifo cs h"
  shows "\<exists>q' cs' h'. run_pq ops q h = Inr (q', h') \<and> queue_type q' = queue_type q \<and>
           pq_inv q' cs' \<and> fifo cs' h'"
  using assms
proof (induction ops arbitrary: q cs h)
  case Nil
  then show ?case by auto
next
  case (Cons op ops)
  show ?case
  proof (cases op)
    case (Put p x)
    from put_pq_inv[OF Cons.prems(1), of p x] obtain q' k where
      q': "put_pq q p x = Inr q'" "queue_type q' = queue_type q"
      "pq_inv q' (take k cs @ (p, Item x) # drop k cs)"
      "\<forall>e\<in>set (take k cs). in_order (queue_type q) (fst e) p"
      "\<forall>e\<in>set (drop k cs). \<not> in_order (queue_type q) (fst e) p"
      by blast
    from fifo_put[OF Cons.prems(2) q'(4,5)]
    have "fifo (take k cs @ (p, Item x) # drop k cs) (h @ [(p, Item x)])" .
    from Cons.IH[OF q'(3) this] q'(1,2) Put show ?thesis by auto
  next
    case Get
    show ?thesis
    proof (cases cs)
      case Nil
      with Cons.prems have "get_pq q = (Inr None, q)" by (simp add: get_pq_empty)
      with Cons.IH[OF Cons.prems] Get show ?thesis by simp
    next
      case (Cons c cs')
      with Cons.prems obtain q' where q': "get_pq q = (Inr (Some c), q')"
        "queue_type q' = queue_type q" "pq_inv q' cs'"
        using get_pq_inv by blast
      from Cons.prems(2) Cons have "fifo cs' (remove1 c h)" by (simp add: fifo_get)
      from \<open>\<And>q cs h. pq_inv q cs \<Longrightarrow> fifo cs h \<Longrightarrow> \<exists>q' cs' h'. run_pq ops q h = Inr (q', h') \<and>
          queue_type q' = queue_type q \<and> pq_inv q' cs' \<and> fifo cs' h'\<close>[OF q'(3) this] q'(1,2) Get
      show ?thesis by auto
    qed
  qed
qed

lemma put_all_inv:
  assumes "pq_inv q cs" "fifo cs h"
  shows "\<exists>q' cs'. put_all q l = Inr q' \<and> queue_type q' = queue_type q \<and>
           pq_inv q' cs' \<and> fifo cs' (h @ map (\<lambda>(p, x). (p, Item x)) l)"
  using assms
proof (induction l arbitrary: q cs h)
  case Nil
  then show ?case by auto
next
  case (Cons a l)
  obtain p x where a: "a = (p, x)" by (cases a)
  from put_pq_inv[OF Cons.prems(1), of p x] obtain q' k where
    q': "put_pq q p x = Inr q'" "queue_type q' = queue_type q"
    "pq_inv q' (take k cs @ (p, Item x) # drop k cs)"
    "\<forall>e\<in>set (take k cs). in_order (queue_type q) (fst e) p"
    "\<forall>e\<in>set (drop k cs). \<not> in_order (queue_type q) (fst e) p"
    by blast
  from fifo_put[OF Cons.prems(2) q'(4,5)]
  have "fifo (take k cs @ (p, Item x) # drop k cs) (h @ [(p, Item x)])" .
  from Cons.IH[OF q'(3) this] q'(1,2) a show ?case by auto
qed

lemma init_pq_inv:
  "\<exists>q cs. PriorityQueue_init il qt = Inr q \<and> queue_type q = qt \<and> pq_inv q cs \<and>
      fifo cs (case il of None \<Rightarrow> [] | Some l \<Rightarrow> map (\<lambda>(p, x). (p, Item x)) l)"
proof -
  let ?q = "\<lparr>queue_type = qt, items_pq = dummies qt, size_pq = 0\<rparr> :: 'a PriorityQueue"
  have inv: "pq_inv ?q []" by (simp add: pq_inv_def dummies_def)
  have f: "fifo [] ([] :: 'a entry list)" by (simp add: fifo_def)
  show ?thesis
  proof (cases il)
    case None
    with inv f show ?thesis by (auto simp: PriorityQueue_init_def)
  next
    case (Some l)
    from put_all_inv[OF inv f, of l] Some show ?thesis
      by (auto simp: PriorityQueue_init_def)
  qed
qed

declare drain_pq.simps [simp del]

lemma drain_pq_inv: "pq_inv q cs \<Longrightarrow> drain_pq q = Inr cs"
proof (induction cs arbitrary: q)
  case Nil
  then show ?case by (subst drain_pq.simps) (simp add: get_pq_empty)
next
  case (Cons c cs)
  from get_pq_inv[OF Cons.prems] obtain q' where "get_pq q = (Inr (Some c), q')" "pq_inv q' cs"
    by blast
  with Cons.IH[of q'] show ?case by (subst drain_pq.simps) simp
qed

lemma fifo_mset: "fifo cs h \<Longrightarrow> mset cs = mset h"
proof (rule multiset_eqI)
  fix e assume f: "fifo cs h"
  have "count (mset xs) e = count (mset (filter (\<lambda>x. fst x = fst e) xs)) e" for xs :: "'a entry list"
    by simp
  with f show "count (mset cs) e = count (mset h) e"
    by (metis fifo_def)
qed

lemma sorted_in_order:
  "sorted_wrt (in_order qt) ps \<longleftrightarrow> (if qt = ''max'' then sorted_wrt (\<ge>) ps else sorted_wrt (\<le>) ps)"
proof -
  have "in_order qt = (if qt = ''max'' then (\<ge>) else (\<le>))"
    by (auto simp: in_order_def fun_eq_iff)
  then show ?thesis by simp
qed

text \<open>The example at the end of the source file, with a \<open>get\<close> between the puts.\<close>

lemma pq_example:
  "(case PriorityQueue_init None ''min'' of
      Inl e \<Rightarrow> Inl e
    | Inr q0 \<Rightarrow>
       (case run_pq [Put (Num 3) ''a'', Put (Num 6) ''b'', Put (Num 1) ''c'', Put (Num 4) ''d'',
                    Put (Num 3) ''e'', Get, Put (Num 3) ''f'', Put (Num 1) ''g''] q0 [] of
          Inl e \<Rightarrow> Inl e
        | Inr (q, h) \<Rightarrow> drain_pq q)) =
   Inr [(Num 1, Item ''g''), (Num 3, Item ''a''), (Num 3, Item ''e''), (Num 3, Item ''f''),
        (Num 4, Item ''d''), (Num 6, Item ''b'')]"
  by code_simp

text \<open>
  C6: a queue of either type is created, with or without an initial list, and any sequence
  of \<open>put\<close> and \<open>get\<close> calls is run on it; no call raises. Repeated \<open>get\<close> then returns
  exactly the entries that were put and not yet returned, in non-decreasing order of priority
  for a min queue and in non-increasing order for a max queue, and the entries of one
  priority come out in the order of their \<open>put\<close> calls.
\<close>

theorem pq_get_order:
  "\<exists>q h out.
     (case PriorityQueue_init il qt of
        Inl e \<Rightarrow> Inl e
      | Inr q0 \<Rightarrow> run_pq ops q0 (init_entries il)) = Inr (q, h) \<and>
     drain_pq q = Inr out \<and> mset out = mset h \<and>
     (if qt = ''max'' then sorted_wrt (\<ge>) (map fst out) else sorted_wrt (\<le>) (map fst out)) \<and>
     (\<forall>p. filter (\<lambda>e. fst e = p) out = filter (\<lambda>e. fst e = p) h)"
proof -
  from init_pq_inv[of il qt] obtain q0 cs0 where
    q0: "PriorityQueue_init il qt = Inr q0" "queue_type q0 = qt" "pq_inv q0 cs0"
        "fifo cs0 (init_entries il)"
    by (auto simp: init_entries_def)
  from run_pq_inv[OF q0(3,4), of ops] obtain q cs h where
    q: "run_pq ops q0 (init_entries il) = Inr (q, h)" "queue_type q = queue_type q0"
       "pq_inv q cs" "fifo cs h"
    by blast
  from q(3) have d: "drain_pq q = Inr cs" by (rule drain_pq_inv)
  from q(3) q(2) q0(2) have "sorted_wrt (in_order qt) (map fst cs)" by (simp add: pq_inv_def)
  then have s: "if qt = ''max'' then sorted_wrt (\<ge>) (map fst cs) else sorted_wrt (\<le>) (map fst cs)"
    by (simp only: sorted_in_order)
  from q(4) have "mset cs = mset h" by (rule fifo_mset)
  with q0(1) q(1) d s q(4) show ?thesis by (auto simp: fifo_def)
qed

text \<open>The theorem at a min queue with equal priorities put around a \<open>get\<close>.\<close>

theorem pq_get_order_witness:
  "\<exists>q h out.
     (case PriorityQueue_init None ''min'' of
        Inl e \<Rightarrow> Inl e
      | Inr q0 \<Rightarrow> run_pq [Put (Num 3) ''a'', Put (Num 1) ''c'', Get, Put (Num 3) ''f'']
                   q0 (init_entries None)) = Inr (q, h) \<and>
     drain_pq q = Inr out \<and> mset out = mset h \<and>
     (if ''min'' = ''max'' then sorted_wrt (\<ge>) (map fst out) else sorted_wrt (\<le>) (map fst out)) \<and>
     (\<forall>p. filter (\<lambda>e. fst e = p) out = filter (\<lambda>e. fst e = p) h)"
  by (rule pq_get_order)

section \<open>Properties of the binary heap\<close>

lemma above_trans: "above ht a b \<Longrightarrow> above ht b c \<Longrightarrow> above ht a c"
  by (auto simp: above_def split: if_splits)

lemma above_total: "\<not> above ht a b \<Longrightarrow> above ht b a"
  by (auto simp: above_def split: if_splits)

lemma above_refl: "above ht a a"
  by (simp add: above_def)

lemma find_min_max_child:
  assumes "length its = n + 1" "2 * ip \<le> n"
  shows "find_min_max its ip ht = 2 * ip \<or> find_min_max its ip ht = 2 * ip + 1"
    and "find_min_max its ip ht \<le> n"
    and "\<And>j. j div 2 = ip \<Longrightarrow> j \<le> n \<Longrightarrow> 0 < ip \<Longrightarrow> above ht (its ! find_min_max its ip ht) (its ! j)"
proof -
  show "find_min_max its ip ht = 2 * ip \<or> find_min_max its ip ht = 2 * ip + 1"
    by (auto simp: find_min_max_def Let_def)
  show "find_min_max its ip ht \<le> n"
    using assms by (auto simp: find_min_max_def Let_def)
  fix j assume j: "j div 2 = ip" "j \<le> n" "0 < ip"
  then have "j = 2 * ip \<or> j = 2 * ip + 1" by auto
  then show "above ht (its ! find_min_max its ip ht) (its ! j)"
    using assms j by (auto simp: find_min_max_def Let_def above_def)
qed

lemma swap_down_unfold:
  assumes "length its = n + 1" "2 * ip \<le> n" "0 < ip"
  shows "swap_down ht its n ip =
     (let ic = find_min_max its ip ht in
      swap_down ht (if above ht (its ! ip) (its ! ic) then its else its[ip := its ! ic, ic := its ! ip]) n ic)"
proof -
  have "find_min_max its ip ht \<le> n" using assms by (intro find_min_max_child)
  with assms show ?thesis
    by (subst swap_down.simps) (auto simp: Let_def above_def not_le not_less)
qed


lemma down_inv_no_child:
  assumes "down_inv ht its n lo ip" "n < 2 * ip"
  shows "heap_from ht its n lo"
  unfolding heap_from_def
proof (intro allI impI)
  fix i assume i: "2 \<le> i \<and> i \<le> n \<and> lo \<le> i div 2"
  with assms(2) have "i div 2 \<noteq> ip" by auto
  with assms(1) i show "above ht (its ! (i div 2)) (its ! i)" by (auto simp: down_inv_def)
qed

lemma down_inv_keep:
  assumes len: "length its = n + 1" and c: "2 * ip \<le> n" "0 < ip"
    and inv: "down_inv ht its n lo ip"
    and ic: "ic = find_min_max its ip ht"
    and ab: "above ht (its ! ip) (its ! ic)"
  shows "down_inv ht its n lo ic"
proof -
  have kid: "above ht (its ! ic) (its ! j)" if "j div 2 = ip" "j \<le> n" for j
    unfolding ic using that c by (intro find_min_max_child(3)[OF len c(1)]) auto
  have icp: "ic div 2 = ip" "ic \<le> n" "ip < ic"
    using find_min_max_child(1,2)[OF len c(1), of ht] ic c by auto
  show ?thesis
    unfolding down_inv_def
  proof (intro conjI allI impI)
    fix i assume i: "2 \<le> i \<and> i \<le> n \<and> lo \<le> i div 2 \<and> i div 2 \<noteq> ic"
    show "above ht (its ! (i div 2)) (its ! i)"
    proof (cases "i div 2 = ip")
      case True
      with i kid[of i] ab show ?thesis by (auto intro: above_trans)
    next
      case False
      with inv i show ?thesis by (auto simp: down_inv_def)
    qed
  next
    fix i assume i: "2 \<le> i \<and> i \<le> n \<and> i div 2 = ic \<and> lo \<le> ic div 2"
    then have "i div 2 \<noteq> ip" "lo \<le> i div 2" using icp c by auto
    with inv i have "above ht (its ! (i div 2)) (its ! i)" unfolding down_inv_def by blast
    with i have "above ht (its ! ic) (its ! i)" by simp
    with ab show "above ht (its ! (ic div 2)) (its ! i)"
      unfolding icp by (rule above_trans)
  qed
qed

lemma down_inv_swap:
  assumes len: "length its = n + 1" and c: "2 * ip \<le> n" "0 < ip"
    and inv: "down_inv ht its n lo ip"
    and ic: "ic = find_min_max its ip ht"
    and ab: "\<not> above ht (its ! ip) (its ! ic)"
  shows "down_inv ht (its[ip := its ! ic, ic := its ! ip]) n lo ic"
proof -
  let ?xs = "its[ip := its ! ic, ic := its ! ip]"
  have kid: "above ht (its ! ic) (its ! j)" if "j div 2 = ip" "j \<le> n" for j
    unfolding ic using that c by (intro find_min_max_child(3)[OF len c(1)]) auto
  have icp: "ic div 2 = ip" "ic \<le> n" "ip < ic"
    using find_min_max_child(1,2)[OF len c(1), of ht] ic c by auto
  have nth_ip: "?xs ! ip = its ! ic" using len icp by simp
  have nth_ic: "?xs ! ic = its ! ip" using len icp by simp
  have nth_other: "?xs ! k = its ! k" if "k \<noteq> ip" "k \<noteq> ic" for k using that by simp
  show ?thesis
    unfolding down_inv_def
  proof (intro conjI allI impI)
    fix i assume i: "2 \<le> i \<and> i \<le> n \<and> lo \<le> i div 2 \<and> i div 2 \<noteq> ic"
    show "above ht (?xs ! (i div 2)) (?xs ! i)"
    proof (cases "i div 2 = ip")
      case True
      show ?thesis
      proof (cases "i = ic")
        case True
        with \<open>i div 2 = ip\<close> ab show ?thesis
          by (simp only: nth_ip nth_ic) (rule above_total)
      next
        case False
        moreover from True i c have "i \<noteq> ip" by auto
        ultimately have "?xs ! i = its ! i" by (intro nth_other)
        with True kid[of i] i show ?thesis by (simp only: nth_ip)
      qed
    next
      case False
      show ?thesis
      proof (cases "i = ip")
        case True
        with i icp have "above ht (its ! (ip div 2)) (its ! ic)"
          using inv by (auto simp: down_inv_def)
        moreover from icp c have "?xs ! (ip div 2) = its ! (ip div 2)"
          by (intro nth_other) auto
        ultimately show ?thesis using True by (simp only: nth_ip)
      next
        case nip: False
        from False icp have "i \<noteq> ic" by auto
        with nip have a: "?xs ! i = its ! i" by (intro nth_other)
        from False i have b: "?xs ! (i div 2) = its ! (i div 2)" by (intro nth_other) auto
        from inv i False show ?thesis unfolding a b by (auto simp: down_inv_def)
      qed
    qed
  next
    fix i assume i: "2 \<le> i \<and> i \<le> n \<and> i div 2 = ic \<and> lo \<le> ic div 2"
    then have ne: "i div 2 \<noteq> ip" "i \<noteq> ip" "i \<noteq> ic" "lo \<le> i div 2" using icp c by auto
    with inv i have "above ht (its ! (i div 2)) (its ! i)" unfolding down_inv_def by blast
    with i have "above ht (its ! ic) (its ! i)" by simp
    moreover have "?xs ! i = its ! i" using ne by (intro nth_other)
    ultimately show "above ht (?xs ! (ic div 2)) (?xs ! i)"
      unfolding icp(1) by (simp only: nth_ip)
  qed
qed

lemma swap_down_spec:
  assumes "length its = n + 1" "0 < ip" "down_inv ht its n lo ip"
  shows "\<exists>its'. swap_down ht its n ip = Some (Inr its') \<and> length its' = n + 1 \<and>
           mset its' = mset its \<and> (\<forall>k<ip. its' ! k = its ! k) \<and> heap_from ht its' n lo"
  using assms
proof (induction "Suc n - ip" arbitrary: its ip rule: less_induct)
  case less
  show ?case
  proof (cases "2 * ip \<le> n")
    case False
    then have "swap_down ht its n ip = Some (Inr its)"
      by (subst swap_down.simps) simp
    moreover from less.prems(3) False have "heap_from ht its n lo"
      by (intro down_inv_no_child) auto
    ultimately show ?thesis using less.prems by auto
  next
    case True
    define ic where "ic = find_min_max its ip ht"
    have icp: "ic div 2 = ip" "ic \<le> n" "ip < ic"
      using find_min_max_child(1,2)[OF less.prems(1) True, of ht] less.prems(2)
      by (auto simp: ic_def)
    define xs where "xs = (if above ht (its ! ip) (its ! ic) then its else its[ip := its ! ic, ic := its ! ip])"
    have unf: "swap_down ht its n ip = swap_down ht xs n ic"
      using swap_down_unfold[OF less.prems(1) True less.prems(2), of ht]
      by (simp add: Let_def ic_def xs_def)
    have len: "length xs = n + 1" using less.prems(1) by (simp add: xs_def)
    have ms: "mset xs = mset its"
      using less.prems(1) icp by (simp add: xs_def mset_swap)
    have low: "\<forall>k<ip. xs ! k = its ! k" using icp by (simp add: xs_def)
    have inv: "down_inv ht xs n lo ic"
      using down_inv_keep[OF less.prems(1) True less.prems(2,3) ic_def]
            down_inv_swap[OF less.prems(1) True less.prems(2,3) ic_def]
      by (simp add: xs_def)
    from icp less.prems(2) have "Suc n - ic < Suc n - ip" "0 < ic" by auto
    from less.hyps[OF this(1) len this(2) inv] obtain its' where
      "swap_down ht xs n ic = Some (Inr its')" "length its' = n + 1" "mset its' = mset xs"
      "\<forall>k<ic. its' ! k = xs ! k" "heap_from ht its' n lo"
      by blast
    with unf ms low icp show ?thesis by auto
  qed
qed


lemma up_inv_step:
  assumes len: "length its = n + 1" and c: "ic \<le> n" "0 < ic div 2"
    and inv: "up_inv ht its n ic"
  shows "up_inv ht (if above ht (its ! (ic div 2)) (its ! ic) then its
                    else its[ic div 2 := its ! ic, ic := its ! (ic div 2)]) n (ic div 2)"
proof (cases "above ht (its ! (ic div 2)) (its ! ic)")
  case ab: True
  define ip where "ip = ic div 2"
  have par: "above ht (its ! (i div 2)) (its ! i)" if "2 \<le> i" "i \<le> n" for i
    using inv ab that unfolding up_inv_def by (cases "i = ic") auto
  have "up_inv ht its n ip"
    unfolding up_inv_def
  proof (intro conjI allI impI)
    fix i assume "2 \<le> i \<and> i \<le> n \<and> i \<noteq> ip"
    then show "above ht (its ! (i div 2)) (its ! i)" using par by simp
  next
    fix i assume i: "2 \<le> i \<and> i \<le> n \<and> i div 2 = ip \<and> 2 \<le> ip"
    then have "above ht (its ! (ip div 2)) (its ! ip)" using par[of ip] by auto
    moreover from i have "above ht (its ! ip) (its ! i)" using par[of i] by auto
    ultimately show "above ht (its ! (ip div 2)) (its ! i)" by (rule above_trans)
  qed
  with ab show ?thesis by (simp add: ip_def)
next
  case ab: False
  define ip where "ip = ic div 2"
  let ?xs = "its[ip := its ! ic, ic := its ! ip]"
  from c have ipc: "ip < ic" "0 < ip" "2 \<le> ic" by (auto simp: ip_def)
  have nth_ip: "?xs ! ip = its ! ic" using len ipc c by simp
  have nth_ic: "?xs ! ic = its ! ip" using len ipc c by simp
  have nth_other: "?xs ! k = its ! k" if "k \<noteq> ip" "k \<noteq> ic" for k using that by simp
  have par: "above ht (its ! (i div 2)) (its ! i)" if "2 \<le> i" "i \<le> n" "i \<noteq> ic" for i
    using inv that unfolding up_inv_def by blast
  have gpar: "above ht (its ! ip) (its ! i)" if "2 \<le> i" "i \<le> n" "i div 2 = ic" for i
    using inv that ipc unfolding up_inv_def ip_def by blast
  from ab have ba: "above ht (its ! ic) (its ! ip)" unfolding ip_def by (rule above_total)
  have "up_inv ht ?xs n ip"
    unfolding up_inv_def
  proof (intro conjI allI impI)
    fix i assume i: "2 \<le> i \<and> i \<le> n \<and> i \<noteq> ip"
    show "above ht (?xs ! (i div 2)) (?xs ! i)"
    proof (cases "i = ic")
      case True
      with ba show ?thesis by (simp only: ip_def[symmetric] nth_ip nth_ic)
    next
      case nic: False
      with i have xi: "?xs ! i = its ! i" by (intro nth_other) auto
      show ?thesis
      proof (cases "i div 2 = ip")
        case True
        from par[of i] i nic True have "above ht (its ! ip) (its ! i)" by auto
        with ba have "above ht (its ! ic) (its ! i)" by (rule above_trans)
        then show ?thesis by (simp only: True nth_ip xi)
      next
        case nip: False
        show ?thesis
        proof (cases "i div 2 = ic")
          case True
          from gpar[of i] i True show ?thesis by (simp only: True nth_ic xi)
        next
          case False
          with nip have "?xs ! (i div 2) = its ! (i div 2)" by (intro nth_other)
          with par[of i] i nic xi show ?thesis by simp
        qed
      qed
    qed
  next
    fix i assume i: "2 \<le> i \<and> i \<le> n \<and> i div 2 = ip \<and> 2 \<le> ip"
    from ipc have "ip div 2 \<noteq> ip" "ip div 2 \<noteq> ic" by auto
    then have xp: "?xs ! (ip div 2) = its ! (ip div 2)" by (intro nth_other)
    from i ipc c have pp: "above ht (its ! (ip div 2)) (its ! ip)" by (intro par) auto
    show "above ht (?xs ! (ip div 2)) (?xs ! i)"
    proof (cases "i = ic")
      case True
      with pp show ?thesis by (simp only: xp nth_ic)
    next
      case False
      moreover from i have "i \<noteq> ip" by auto
      ultimately have xi: "?xs ! i = its ! i" by (intro nth_other)
      from par[of i] i False have "above ht (its ! ip) (its ! i)" by auto
      with pp have "above ht (its ! (ip div 2)) (its ! i)" by (rule above_trans)
      then show ?thesis by (simp only: xp xi)
    qed
  qed
  with ab show ?thesis by (simp add: ip_def)
qed

declare swap_up.simps [simp del]

lemma swap_up_spec:
  assumes "length its = n + 1" "ic \<le> n" "up_inv ht its n ic"
  shows "\<exists>its'. swap_up ht its ic = Inr its' \<and> length its' = n + 1 \<and>
           mset its' = mset its \<and> its' ! 0 = its ! 0 \<and> heap_from ht its' n 1"
  using assms
proof (induction ic arbitrary: its rule: less_induct)
  case (less ic)
  show ?case
  proof (cases "0 < ic div 2")
    case False
    then have "swap_up ht its ic = Inr its"
      by (subst swap_up.simps) simp
    moreover from False have "ic < 2" by auto
    with less.prems(3) have "heap_from ht its n 1"
      by (auto simp: up_inv_def heap_from_def)
    ultimately show ?thesis using less.prems by auto
  next
    case True
    define xs where "xs = (if above ht (its ! (ic div 2)) (its ! ic) then its
                    else its[ic div 2 := its ! ic, ic := its ! (ic div 2)])"
    have unf: "swap_up ht its ic = swap_up ht xs (ic div 2)"
      using True less.prems(1,2)
      by (subst swap_up.simps) (auto simp: Let_def xs_def above_def not_le not_less)
    have len: "length xs = n + 1" using less.prems(1) by (simp add: xs_def)
    have ms: "mset xs = mset its"
      using less.prems(1,2) by (simp add: xs_def mset_swap)
    have z: "xs ! 0 = its ! 0" using True by (auto simp: xs_def)
    have inv: "up_inv ht xs n (ic div 2)"
      unfolding xs_def using less.prems(1,2) True less.prems(3) by (rule up_inv_step)
    from True less.prems(2) have "ic div 2 < ic" "ic div 2 \<le> n" by auto
    from less.IH[OF this(1) len this(2) inv] unf ms z show ?thesis by auto
  qed
qed

lemma heap_root:
  assumes "heap_from ht its n 1" "1 \<le> i" "i \<le> n"
  shows "above ht (its ! 1) (its ! i)"
  using assms(2,3)
proof (induction i rule: less_induct)
  case (less i)
  show ?case
  proof (cases "i = 1")
    case True
    then show ?thesis by (simp add: above_refl)
  next
    case False
    with less.prems have i: "2 \<le> i" "i div 2 < i" "1 \<le> i div 2" "i div 2 \<le> n" by auto
    from less.IH[OF i(2,3,4)] have "above ht (its ! 1) (its ! (i div 2))" .
    moreover from assms(1) i less.prems have "above ht (its ! (i div 2)) (its ! i)"
      by (auto simp: heap_from_def)
    ultimately show ?thesis by (rule above_trans)
  qed
qed

lemma mset_tl_eq:
  assumes "mset xs = mset ys" "xs ! 0 = ys ! 0" "ys \<noteq> []"
  shows "mset (tl xs) = mset (tl ys)"
proof -
  from assms obtain b ys' where ys: "ys = b # ys'" by (cases ys) auto
  with assms obtain a xs' where xs: "xs = a # xs'" by (cases xs) auto
  with ys assms show ?thesis by simp
qed

lemma sift_all_spec:
  assumes "length its = n + 1" "heap_from ht its n (idx + 1)"
  shows "\<exists>its'. sift_all ht its n idx = Some (Inr its') \<and> length its' = n + 1 \<and>
           mset its' = mset its \<and> its' ! 0 = its ! 0 \<and> heap_from ht its' n 1"
  using assms
proof (induction idx arbitrary: its)
  case 0
  then show ?case by auto
next
  case (Suc idx)
  have "down_inv ht its n (Suc idx) (Suc idx)"
    using Suc.prems(2) by (auto simp: down_inv_def heap_from_def)
  from swap_down_spec[OF Suc.prems(1) _ this] obtain xs where
    xs: "swap_down ht its n (Suc idx) = Some (Inr xs)" "length xs = n + 1" "mset xs = mset its"
        "\<forall>k<Suc idx. xs ! k = its ! k" "heap_from ht xs n (Suc idx)"
    by auto
  from Suc.IH[of xs] xs obtain its' where
    "sift_all ht xs n idx = Some (Inr its')" "length its' = n + 1"
    "mset its' = mset xs" "its' ! 0 = xs ! 0" "heap_from ht its' n 1"
    by auto
  with xs show ?case by auto
qed

lemma init_bh_inv:
  "\<exists>h. BinaryHeap_init pad il ht = Some (Inr h) \<and> bh_inv h \<and> heap_type h = ht \<and>
       size_bh h = (case il of None \<Rightarrow> 0 | Some l \<Rightarrow> length l) \<and>
       mset (tl (items_bh h)) = mset (case il of None \<Rightarrow> [] | Some l \<Rightarrow> l)"
proof (cases il)
  case None
  then show ?thesis
    by (simp add: BinaryHeap_init_def bh_inv_def heap_from_def)
next
  case (Some l)
  have "heap_from ht (pad # l) (length l) (length l div 2 + 1)"
    by (auto simp: heap_from_def)
  from sift_all_spec[OF _ this] obtain its' where
    "sift_all ht (pad # l) (length l) (length l div 2) = Some (Inr its')" "length its' = length l + 1"
    "mset its' = mset (pad # l)" "its' ! 0 = (pad # l) ! 0" "heap_from ht its' (length l) 1"
    by auto
  moreover from this have "mset (tl its') = mset (tl (pad # l))"
    by (intro mset_tl_eq) auto
  ultimately show ?thesis using Some
    by (simp add: BinaryHeap_init_def bh_inv_def)
qed

lemma put_bh_inv:
  assumes "bh_inv h"
  shows "\<exists>h'. put_bh h x = Inr h' \<and> bh_inv h' \<and> heap_type h' = heap_type h \<and>
           size_bh h' = size_bh h + 1 \<and> mset (tl (items_bh h')) = mset (tl (items_bh h)) + {#x#}"
proof -
  let ?n = "size_bh h + 1"
  let ?xs = "items_bh h @ [x]"
  from assms have len: "length (items_bh h) = size_bh h + 1"
    and hp: "heap_from (heap_type h) (items_bh h) (size_bh h) 1"
    by (auto simp: bh_inv_def)
  have "up_inv (heap_type h) ?xs ?n ?n"
    unfolding up_inv_def
  proof (intro conjI allI impI)
    fix i assume i: "2 \<le> i \<and> i \<le> ?n \<and> i \<noteq> ?n"
    then have "?xs ! i = items_bh h ! i" "?xs ! (i div 2) = items_bh h ! (i div 2)"
      using len by (auto simp: nth_append)
    with hp i show "above (heap_type h) (?xs ! (i div 2)) (?xs ! i)"
      by (auto simp: heap_from_def)
  next
    fix i assume "2 \<le> i \<and> i \<le> ?n \<and> i div 2 = ?n \<and> 2 \<le> ?n"
    then have False by auto
    then show "above (heap_type h) (?xs ! (?n div 2)) (?xs ! i)" ..
  qed
  from swap_up_spec[OF _ _ this] len obtain its' where
    its': "swap_up (heap_type h) ?xs ?n = Inr its'" "length its' = ?n + 1"
    "mset its' = mset ?xs" "its' ! 0 = ?xs ! 0" "heap_from (heap_type h) its' ?n 1"
    by auto
  from its'(3,4) have "mset (tl its') = mset (tl ?xs)" by (intro mset_tl_eq) auto
  moreover from len have "tl ?xs = tl (items_bh h) @ [x]" by (cases "items_bh h") auto
  ultimately have "mset (tl its') = mset (tl (items_bh h)) + {#x#}" by simp
  with its' show ?thesis by (simp add: put_bh_def bh_inv_def)
qed

lemma get_bh_empty: "size_bh h = 0 \<Longrightarrow> get_bh h = Some (Inr (None, h))"
  by (simp add: get_bh_def)

lemma get_bh_inv:
  assumes "bh_inv h" "0 < size_bh h"
  shows "\<exists>h'. get_bh h = Some (Inr (Some (items_bh h ! 1), h')) \<and> bh_inv h' \<and>
           heap_type h' = heap_type h \<and> size_bh h' + 1 = size_bh h \<and>
           mset (tl (items_bh h')) + {#items_bh h ! 1#} = mset (tl (items_bh h))"
proof -
  let ?its = "items_bh h"
  let ?n = "size_bh h - 1"
  let ?xs = "butlast (?its[1 := last ?its])"
  from assms have len: "length ?its = size_bh h + 1"
    and hp: "heap_from (heap_type h) ?its (size_bh h) 1"
    by (auto simp: bh_inv_def)
  from len assms(2) obtain pad r rest where its: "?its = pad # r # rest"
    by (cases ?its; cases "tl ?its") auto
  have lxs: "length ?xs = ?n + 1" using len assms(2) by simp
  have nthx: "?xs ! k = ?its ! k" if "k \<noteq> 1" "k \<le> ?n" for k
    using that len assms(2) by (simp add: nth_butlast)
  have "down_inv (heap_type h) ?xs ?n 1 1"
    unfolding down_inv_def
  proof (intro conjI allI impI)
    fix i assume i: "2 \<le> i \<and> i \<le> ?n \<and> 1 \<le> i div 2 \<and> i div 2 \<noteq> 1"
    then have "?xs ! i = ?its ! i" "?xs ! (i div 2) = ?its ! (i div 2)"
      using nthx[of i] nthx[of "i div 2"] by auto
    with hp i show "above (heap_type h) (?xs ! (i div 2)) (?xs ! i)"
      by (auto simp: heap_from_def)
  next
    fix i assume "2 \<le> i \<and> i \<le> ?n \<and> i div 2 = 1 \<and> (1::nat) \<le> 1 div 2"
    then have False by simp
    then show "above (heap_type h) (?xs ! (1 div 2)) (?xs ! i)" ..
  qed
  from swap_down_spec[OF lxs _ this] obtain its' where
    its': "swap_down (heap_type h) ?xs ?n 1 = Some (Inr its')" "length its' = ?n + 1"
    "mset its' = mset ?xs" "\<forall>k<1. its' ! k = ?xs ! k" "heap_from (heap_type h) its' ?n 1"
    by auto
  from lxs have "length ?xs \<noteq> 0" by linarith
  then have "?xs \<noteq> []" by (simp only: length_0_conv not_False_eq_True)
  with its'(3,4) have "mset (tl its') = mset (tl ?xs)" by (intro mset_tl_eq) auto
  moreover have "mset (tl ?xs) + {#r#} = mset (tl ?its)"
  proof (cases rest rule: rev_cases)
    case Nil
    then show ?thesis by (simp add: its)
  next
    case (snoc ys y)
    then show ?thesis by (simp add: its butlast_append)
  qed
  ultimately have "mset (tl its') + {#?its ! 1#} = mset (tl ?its)" by (simp add: its)
  with its' assms(2) len show ?thesis
    by (simp add: get_bh_def bh_inv_def Let_def)
qed

lemma run_bh_inv:
  assumes "bh_inv (heap s)" "mset (tl (items_bh (heap s))) = mset (held s)"
  shows "\<exists>s'. run_bh ops s = Some (Inr s') \<and> bh_inv (heap s') \<and>
           heap_type (heap s') = heap_type (heap s) \<and>
           mset (tl (items_bh (heap s'))) = mset (held s') \<and>
           n_put s' = n_put s + length (filter is_put ops) \<and>
           size_bh (heap s') + n_got s' + n_put s = size_bh (heap s) + n_got s + n_put s'"
  using assms
proof (induction ops arbitrary: s)
  case Nil
  then show ?case by simp
next
  case (Cons op ops)
  show ?case
  proof (cases op)
    case (BPut x)
    from put_bh_inv[OF Cons.prems(1), of x] obtain h' where
      h': "put_bh (heap s) x = Inr h'" "bh_inv h'" "heap_type h' = heap_type (heap s)"
      "size_bh h' = size_bh (heap s) + 1"
      "mset (tl (items_bh h')) = mset (tl (items_bh (heap s))) + {#x#}"
      by blast
    let ?s = "s\<lparr>heap := h', n_put := n_put s + 1, held := held s @ [x]\<rparr>"
    from h' Cons.prems have "bh_inv (heap ?s)" "mset (tl (items_bh (heap ?s))) = mset (held ?s)"
      by auto
    from Cons.IH[OF this] h' BPut show ?thesis by (auto simp: is_put_def)
  next
    case BGet
    show ?thesis
    proof (cases "size_bh (heap s) = 0")
      case True
      then have "get_bh (heap s) = Some (Inr (None, heap s))" by (rule get_bh_empty)
      with Cons.IH[of s] Cons.prems BGet show ?thesis by (auto simp: is_put_def)
    next
      case False
      then have "0 < size_bh (heap s)" by simp
      from get_bh_inv[OF Cons.prems(1) this] obtain h' where
        h': "get_bh (heap s) = Some (Inr (Some (items_bh (heap s) ! 1), h'))" "bh_inv h'"
        "heap_type h' = heap_type (heap s)" "size_bh h' + 1 = size_bh (heap s)"
        "mset (tl (items_bh h')) + {#items_bh (heap s) ! 1#} = mset (tl (items_bh (heap s)))"
        by blast
      let ?x = "items_bh (heap s) ! 1"
      let ?s = "s\<lparr>heap := h', n_got := n_got s + 1, held := remove1 ?x (held s)\<rparr>"
      from h'(5) Cons.prems(2) have "mset (tl (items_bh h')) = mset (held s) - {#?x#}"
        by (metis add_diff_cancel_right')
      with h' have "bh_inv (heap ?s)" "mset (tl (items_bh (heap ?s))) = mset (held ?s)"
        by auto
      from Cons.IH[OF this] h' BGet show ?thesis by (auto simp: is_put_def)
    qed
  qed
qed

lemma peek_bh_root:
  assumes "bh_inv h" "0 < size_bh h"
  shows "peek_bh h = Inr (Some (items_bh h ! 1))" "items_bh h ! 1 \<in> set (tl (items_bh h))"
    "\<forall>x\<in>set (tl (items_bh h)). above (heap_type h) (items_bh h ! 1) x"
proof -
  from assms have len: "length (items_bh h) = size_bh h + 1"
    and hp: "heap_from (heap_type h) (items_bh h) (size_bh h) 1"
    by (auto simp: bh_inv_def)
  from len assms(2) show "peek_bh h = Inr (Some (items_bh h ! 1))"
    by (simp add: peek_bh_def)
  from len assms(2) obtain pad r rest where its: "items_bh h = pad # r # rest"
    by (cases "items_bh h"; cases "tl (items_bh h)") auto
  then show "items_bh h ! 1 \<in> set (tl (items_bh h))" by simp
  show "\<forall>x\<in>set (tl (items_bh h)). above (heap_type h) (items_bh h ! 1) x"
  proof
    fix x assume "x \<in> set (tl (items_bh h))"
    then obtain k where k: "k < length (tl (items_bh h))" "x = tl (items_bh h) ! k"
      by (auto simp: in_set_conv_nth)
    then have "x = items_bh h ! (k + 1)" "1 \<le> k + 1" "k + 1 \<le> size_bh h"
      using len by (auto simp: nth_tl)
    with heap_root[OF hp, of "k + 1"] show "above (heap_type h) (items_bh h ! 1) x" by simp
  qed
qed

text \<open>
  The examples at the end of the source file: the heap built from a list, the heap after
  eight puts and one get, and the reversed heap, with the lists the source prints.
\<close>

lemma bh_example_init:
  "BinaryHeap_init (0::int) (Some [3, 8, 6, 3, 1, 0, 4, 2]) ''min'' =
     Some (Inr \<lparr>heap_type = ''min'', items_bh = [0, 0, 1, 3, 2, 8, 6, 4, 3], size_bh = 8\<rparr>)"
  by (simp add: BinaryHeap_init_def swap_down.simps find_min_max_def)

lemma bh_example_run:
  "(case start_bh (0::int) None ''min'' of
          None \<Rightarrow> None
        | Some (Inl e) \<Rightarrow> Some (Inl e)
        | Some (Inr s0) \<Rightarrow> run_bh [BPut 3, BPut 8, BPut 6, BPut 3, BPut 1, BPut 0, BPut 4, BPut 2, BGet] s0) =
     Some (Inr \<lparr>heap = \<lparr>heap_type = ''min'', items_bh = [0, 1, 2, 4, 3, 3, 6, 8], size_bh = 7\<rparr>,
                n_put = 8, n_got = 1, held = [3, 8, 6, 3, 1, 4, 2]\<rparr>)"
  by (simp add: start_bh_def BinaryHeap_init_def put_bh_def get_bh_def swap_up.simps swap_down.simps find_min_max_def)

lemma bh_example_reverse:
  "reverse_bh \<lparr>heap_type = ''min'', items_bh = [0::int, 1, 2, 4, 3, 3, 6, 8], size_bh = 7\<rparr> =
     Some (Inr \<lparr>heap_type = ''max'', items_bh = [0, 8, 3, 6, 3, 2, 1, 4], size_bh = 7\<rparr>)"
  by (simp add: reverse_bh_def swap_down.simps find_min_max_def)

text \<open>
  C5: a heap of either type is created, with or without an initial list, and any sequence
  of \<open>put\<close> and \<open>get\<close> calls is run on it; every call returns. Afterwards \<open>peek\<close> returns
  \<open>None\<close> when the heap holds nothing, and otherwise the minimum (min heap) or the maximum
  (max heap) of the items held, which are the items put (or given initially) and not yet
  returned; and \<open>size\<close>, the number of items held, plus the number of items returned equals
  the number of items put plus the length of the initial list.
\<close>

theorem heap_root_extreme:
  "\<exists>s. (case start_bh pad il ht of
          None \<Rightarrow> None
        | Some (Inl e) \<Rightarrow> Some (Inl e)
        | Some (Inr s0) \<Rightarrow> run_bh ops s0) = Some (Inr s) \<and>
       n_put s = length (filter is_put ops) \<and>
       size_bh (heap s) + n_got s = length (init_items il) + n_put s \<and>
       mset (tl (items_bh (heap s))) = mset (held s) \<and>
       size_bh (heap s) = length (held s) \<and>
       peek_bh (heap s) =
         Inr (if held s = [] then None
              else Some (if ht = ''max'' then Max (set (held s)) else Min (set (held s))))"
proof -
  from init_bh_inv[of pad il ht] obtain h0 where
    h0: "BinaryHeap_init pad il ht = Some (Inr h0)" "bh_inv h0" "heap_type h0 = ht"
    "size_bh h0 = length (init_items il)" "mset (tl (items_bh h0)) = mset (init_items il)"
    by (auto simp: init_items_def split: option.splits)
  let ?s0 = "\<lparr>heap = h0, n_put = 0, n_got = 0, held = init_items il\<rparr>"
  have st: "start_bh pad il ht = Some (Inr ?s0)"
    using h0(1) by (simp add: start_bh_def init_items_def)
  from h0 have "bh_inv (heap ?s0)" "mset (tl (items_bh (heap ?s0))) = mset (held ?s0)" by auto
  from run_bh_inv[OF this, of ops] obtain s where
    s: "run_bh ops ?s0 = Some (Inr s)" "bh_inv (heap s)" "heap_type (heap s) = ht"
    "mset (tl (items_bh (heap s))) = mset (held s)" "n_put s = length (filter is_put ops)"
    "size_bh (heap s) + n_got s = length (init_items il) + n_put s"
    using h0 by auto
  from s(2) have "length (tl (items_bh (heap s))) = size_bh (heap s)" by (simp add: bh_inv_def)
  with s(4) have sz: "size_bh (heap s) = length (held s)" by (metis size_mset)
  from s(4) have sets: "set (tl (items_bh (heap s))) = set (held s)" by (metis set_mset_mset)
  have pk: "peek_bh (heap s) =
         Inr (if held s = [] then None
              else Some (if ht = ''max'' then Max (set (held s)) else Min (set (held s))))"
  proof (cases "held s = []")
    case True
    with sz show ?thesis by (simp add: peek_bh_def)
  next
    case False
    with sz have pos: "0 < size_bh (heap s)" by simp
    let ?m = "items_bh (heap s) ! 1"
    from peek_bh_root[OF s(2) pos] sets s(3) have
      m: "peek_bh (heap s) = Inr (Some ?m)" "?m \<in> set (held s)"
      "\<forall>x\<in>set (held s). above ht ?m x"
      by auto
    have "(if ht = ''max'' then Max (set (held s)) else Min (set (held s))) = ?m"
    proof (cases "ht = ''max''")
      case True
      with m have "Max (set (held s)) = ?m"
        by (intro Max_eqI) (auto simp: above_def)
      with True show ?thesis by simp
    next
      case nm: False
      with m have "Min (set (held s)) = ?m"
        by (intro Min_eqI) (auto simp: above_def)
      with nm show ?thesis by simp
    qed
    with m(1) False show ?thesis by simp
  qed
  from st s(1,5,6,4) sz pk show ?thesis by simp
qed

text \<open>The theorem at a min heap of integers: three puts around a get.\<close>

theorem heap_root_extreme_witness:
  "\<exists>s. (case start_bh (0::int) None ''min'' of
          None \<Rightarrow> None
        | Some (Inl e) \<Rightarrow> Some (Inl e)
        | Some (Inr s0) \<Rightarrow> run_bh [BPut 3, BPut 1, BGet, BPut 2] s0) = Some (Inr s) \<and>
       n_put s = length (filter is_put [BPut (3::int), BPut 1, BGet, BPut 2]) \<and>
       size_bh (heap s) + n_got s = length (init_items (None :: int list option)) + n_put s \<and>
       mset (tl (items_bh (heap s))) = mset (held s) \<and>
       size_bh (heap s) = length (held s) \<and>
       peek_bh (heap s) =
         Inr (if held s = [] then None
              else Some (if ''min'' = ''max'' then Max (set (held s)) else Min (set (held s))))"
  by (rule heap_root_extreme)

section \<open>Properties of the search methods\<close>

declare dfs_loop.simps [simp del]
declare bfs_loop.simps [simp del]
declare A_star_loop.simps [simp del]
declare Dijkstra_loop.simps [simp del]

lemma get_path_single:
  "goal g = Some c \<Longrightarrow> prev c = Some None \<Longrightarrow> get_path g prev = Some (Inr [c])"
  by (simp add: get_path_def get_path_loop.simps)

lemma dfs_same:
  assumes "goal g = Some c"
  shows "dfs_run g rnd c = Some (Inr (Some [c], (dfs_start c)\<lparr>frontier := Stack_init None,
            n_visited := 1, trace := [Push c, Pop c]\<rparr>))"
  using assms
  by (simp add: dfs_run_def dfs_loop.simps dfs_start_def is_empty_st_def
      push_def pop_def Stack_init_def found_def get_path_single)

lemma bfs_same:
  assumes "goal g = Some c"
  shows "bfs_run g rnd c = Some (Inr (Some [c], (bfs_start c)\<lparr>frontier := Queue_init None,
            n_visited := 1, trace := [Push c, Pop c]\<rparr>))"
  using assms
  by (simp add: bfs_run_def bfs_loop.simps bfs_start_def is_empty_qu_def
      enqueue_def dequeue_def Queue_init_def found_def get_path_single)

lemma A_star_start_eq:
  "A_star_start gl st = Inr \<lparr>frontier = \<lparr>queue_type = ''min'',
        items_pq = [(NegInf, Dummy), (Num (heuristic gl st), Item st), (PosInf, Dummy)], size_pq = 1\<rparr>,
      previous = [st \<mapsto> None], g_values = [st \<mapsto> 0], n_visited = 0, n_added = 1,
      trace = [Push st]\<rparr>"
  by (simp add: A_star_start_def PriorityQueue_init_def dummies_def put_pq_def
      put_search.simps list_insert_def)

lemma A_star_same:
  assumes "goal g = Some c"
  shows "\<exists>s. A_star_run g rnd c c = Some (Inr (Some [c], s)) \<and> n_visited s = 1 \<and> n_added s = 1 \<and>
            trace s = [Push c, Pop c]"
  using assms
  by (simp add: A_star_run_def A_star_start_eq A_star_loop.simps is_empty_pq_def get_pq_def
      found_def get_path_single)

lemma Dijkstra_start_eq:
  "Dijkstra_start st = Some (Inr \<lparr>frontier = \<lparr>heap_type = ''min'',
        items_bh = [(0, (0, 0)), (0, st)], size_bh = 1\<rparr>,
      previous = [st \<mapsto> None], g_values = [st \<mapsto> 0], n_visited = 0, n_added = 1,
      trace = [Push st]\<rparr>)"
  by (simp add: Dijkstra_start_def BinaryHeap_init_def put_bh_def swap_up.simps)

lemma Dijkstra_same:
  assumes "goal g = Some c"
  shows "\<exists>s. Dijkstra_run g rnd c = Some (Inr (Some [c], s)) \<and> n_visited s = 1 \<and> n_added s = 1 \<and>
            trace s = [Push c, Pop c]"
  using assms
  by (simp add: Dijkstra_run_def Dijkstra_start_eq Dijkstra_loop.simps is_empty_bh_def get_bh_def
      swap_down.simps found_def get_path_single)

text \<open>
  C7: when the start and the goal are set and equal, each of \<open>dfs\<close>, \<open>bfs\<close>, \<open>A_star\<close>
  and \<open>Dijkstra\<close> returns the one-cell path \<open>[start]\<close> and leaves 1 in \<open>visited\<close> and 1 in
  \<open>added\<close>: the start is pushed, popped and recognised as the goal, and the layout is not
  read at any neighbour.
\<close>

theorem same_start_goal:
  assumes "start g = Some c" "goal g = Some c"
  shows "dfs g rnd = Some (Inr (Some [c], g\<lparr>visited := 1, added := 1\<rparr>)) \<and>
         bfs g rnd = Some (Inr (Some [c], g\<lparr>visited := 1, added := 1\<rparr>)) \<and>
         A_star g rnd = Some (Inr (Some [c], g\<lparr>visited := 1, added := 1\<rparr>)) \<and>
         Dijkstra g rnd = Some (Inr (Some [c], g\<lparr>visited := 1, added := 1\<rparr>)) \<and>
         (\<exists>s. dfs_run g rnd c = Some (Inr (Some [c], s)) \<and> trace s = [Push c, Pop c]) \<and>
         (\<exists>s. bfs_run g rnd c = Some (Inr (Some [c], s)) \<and> trace s = [Push c, Pop c]) \<and>
         (\<exists>s. A_star_run g rnd c c = Some (Inr (Some [c], s)) \<and> trace s = [Push c, Pop c]) \<and>
         (\<exists>s. Dijkstra_run g rnd c = Some (Inr (Some [c], s)) \<and> trace s = [Push c, Pop c])"
proof -
  from A_star_same[OF assms(2), of rnd] obtain sa where
    sa: "A_star_run g rnd c c = Some (Inr (Some [c], sa))" "n_visited sa = 1" "n_added sa = 1"
      "trace sa = [Push c, Pop c]" by blast
  from Dijkstra_same[OF assms(2), of rnd] obtain sd where
    sd: "Dijkstra_run g rnd c = Some (Inr (Some [c], sd))" "n_visited sd = 1" "n_added sd = 1"
      "trace sd = [Push c, Pop c]" by blast
  from assms sa sd show ?thesis
    by (simp add: dfs_def bfs_def A_star_def Dijkstra_def finish_def dfs_same bfs_same
        dfs_start_def bfs_start_def)
qed

text \<open>The theorem on a 3 by 3 grid whose only free cell is both start and goal.\<close>

theorem same_start_goal_witness:
  "dfs \<lparr>layout = [''***'', ''*G*'', ''***''], bound = [[0, 1, 2], [0, 2], [0, 1, 2]],
        start = Some (1, 1), goal = Some (1, 1), offset = Some [(-1, 0), (0, 1), (1, 0), (0, -1)],
        prob = None, visited = 0, added = 0\<rparr> (\<lambda>k. []) =
     Some (Inr (Some [(1, 1)],
       \<lparr>layout = [''***'', ''*G*'', ''***''], bound = [[0, 1, 2], [0, 2], [0, 1, 2]],
        start = Some (1, 1), goal = Some (1, 1), offset = Some [(-1, 0), (0, 1), (1, 0), (0, -1)],
        prob = None, visited = 1, added = 1\<rparr>))"
  using same_start_goal [of "\<lparr>layout = [''***'', ''*G*'', ''***''], bound = [[0, 1, 2], [0, 2], [0, 1, 2]],
        start = Some (1, 1), goal = Some (1, 1), offset = Some [(-1, 0), (0, 1), (1, 0), (0, -1)],
        prob = None, visited = 0, added = 0\<rparr>" "(1, 1)" "\<lambda>k. []"]
  by simp

end
